theory Spec2Isabelle
  imports Main "HOL-Library.Product_Lexorder"
begin

section \<open>The Minesweeper knowledge engine (minesweeper.py)\<close>

text \<open>
  A shallow embedding of the classes \<^verbatim>\<open>Sentence\<close> and \<^verbatim>\<open>MinesweeperAI\<close> of
  \<^verbatim>\<open>minesweeper.py\<close>. Python sets are HOL sets (a Python set is always finite, which
  the model carries as an invariant), \<^verbatim>\<open>len\<close> of a set is \<open>card\<close>, Python integers are
  \<open>int\<close>, and every method that mutates \<^verbatim>\<open>self\<close> takes the object and returns the
  updated one.
\<close>

subsection \<open>Sentence\<close>

text \<open>
  \<^verbatim>\<open>Sentence(cells, count)\<close>: exactly \<open>count\<close> of \<open>cells\<close> are mines. The class's
  \<^verbatim>\<open>__eq__\<close> compares both fields, which is the equality of the record.
\<close>

record 'c sentence =
  cells :: "'c set"
  count :: int

definition Sentence :: "'c set \<Rightarrow> int \<Rightarrow> 'c sentence" where
  "Sentence cs n = \<lparr>cells = cs, count = n\<rparr>"

definition known_mines :: "'c sentence \<Rightarrow> 'c set" where
  "known_mines s =
     (if int (card (cells s)) = count s \<and> count s > 0 then cells s else {})"

definition known_safes :: "'c sentence \<Rightarrow> 'c set" where
  "known_safes s = (if count s = 0 then cells s else {})"

text \<open>
  \<^verbatim>\<open>Sentence.mark_mine\<close> and \<^verbatim>\<open>Sentence.mark_safe\<close> return the updated sentence and
  the boolean the method returns.
\<close>

definition Sentence_mark_mine :: "'c \<Rightarrow> 'c sentence \<Rightarrow> 'c sentence \<times> bool" where
  "Sentence_mark_mine c s =
     (if c \<in> cells s then (s\<lparr>cells := cells s - {c}, count := count s - 1\<rparr>, True)
      else (s, False))"

definition Sentence_mark_safe :: "'c \<Rightarrow> 'c sentence \<Rightarrow> 'c sentence \<times> bool" where
  "Sentence_mark_safe c s =
     (if c \<in> cells s then (s\<lparr>cells := cells s - {c}\<rparr>, True) else (s, False))"

subsection \<open>MinesweeperAI\<close>

type_synonym cell = "int \<times> int"

record minesweeperAI =
  height :: int
  width :: int
  moves_made :: "cell set"
  mines :: "cell set"
  safes :: "cell set"
  knowledge :: "cell sentence list"

definition init_ai :: "int \<Rightarrow> int \<Rightarrow> minesweeperAI" where
  "init_ai h w =
     \<lparr>height = h, width = w, moves_made = {}, mines = {}, safes = {}, knowledge = []\<rparr>"

definition mark_mine :: "cell \<Rightarrow> minesweeperAI \<Rightarrow> minesweeperAI" where
  "mark_mine c k =
     (if c \<notin> mines k
      then k\<lparr>mines := insert c (mines k),
             knowledge := map (\<lambda>s. fst (Sentence_mark_mine c s)) (knowledge k)\<rparr>
      else k)"

definition mark_safe :: "cell \<Rightarrow> minesweeperAI \<Rightarrow> minesweeperAI" where
  "mark_safe c k =
     (if c \<notin> safes k
      then k\<lparr>safes := insert c (safes k),
             knowledge := map (\<lambda>s. fst (Sentence_mark_safe c s)) (knowledge k)\<rparr>
      else k)"

text \<open>
  Step 2 of \<^verbatim>\<open>add_knowledge\<close>: the 3x3 block around the cell in the order of the two
  \<^verbatim>\<open>range(-1, 2)\<close> loops, without the cell itself and clipped to the board.
\<close>

definition neighbor_cells :: "int \<Rightarrow> int \<Rightarrow> cell \<Rightarrow> cell list" where
  "neighbor_cells h w c =
     filter (\<lambda>n. n \<noteq> c \<and> (0 \<le> fst n \<and> fst n < h) \<and> (0 \<le> snd n \<and> snd n < w))
       (concat (map (\<lambda>dr. map (\<lambda>dc. (fst c + dr, snd c + dc)) [-1, 0, 1]) [-1, 0, 1]))"

text \<open>
  The loop over the neighbours: a known mine lowers the working count, a cell that is
  neither known safe nor a known mine joins the new sentence.
\<close>

fun adjust_count :: "minesweeperAI \<Rightarrow> cell list \<Rightarrow> int \<times> cell set \<Rightarrow> int \<times> cell set" where
  "adjust_count k [] acc = acc"
| "adjust_count k (n # ns) (cnt, new_cells) =
     (if n \<in> mines k then adjust_count k ns (cnt - 1, new_cells)
      else if n \<notin> safes k \<and> n \<notin> mines k then adjust_count k ns (cnt, insert n new_cells)
      else adjust_count k ns (cnt, new_cells))"

text \<open>Steps 1 and 2 of \<^verbatim>\<open>add_knowledge\<close>, up to the append of the new sentence.\<close>

definition record_move :: "cell \<Rightarrow> minesweeperAI \<Rightarrow> minesweeperAI" where
  "record_move c k = mark_safe c (k\<lparr>moves_made := insert c (moves_made k)\<rparr>)"

definition new_sentence_of :: "cell \<Rightarrow> int \<Rightarrow> minesweeperAI \<Rightarrow> cell sentence" where
  "new_sentence_of c n k =
     (case adjust_count k (neighbor_cells (height k) (width k) c) (n, {}) of
        (count_after_ignoring_mines, new_cells) \<Rightarrow> Sentence new_cells count_after_ignoring_mines)"

definition add_new_sentence :: "cell \<Rightarrow> int \<Rightarrow> minesweeperAI \<Rightarrow> minesweeperAI" where
  "add_new_sentence c n k =
     (let new_sentence = new_sentence_of c n k
      in if card (cells new_sentence) > 0
         then k\<lparr>knowledge := knowledge k @ [new_sentence]\<rparr>
         else k)"

text \<open>
  Step 3, one pass of the \<^verbatim>\<open>for\<close> loop over the deep copy of the knowledge: the
  sentences scanned are those of the snapshot, the marks go to the live object. A Python
  set is iterated in an order the language does not fix; the model iterates the sorted
  enumeration, and lemma \<open>mark_mines_any_order\<close> below shows that the order is
  immaterial.
\<close>

definition mark_mines :: "cell set \<Rightarrow> minesweeperAI \<Rightarrow> minesweeperAI" where
  "mark_mines new_mines k = fold mark_mine (sorted_list_of_set new_mines) k"

definition mark_safes :: "cell set \<Rightarrow> minesweeperAI \<Rightarrow> minesweeperAI" where
  "mark_safes new_safes k = fold mark_safe (sorted_list_of_set new_safes) k"

definition scan_sentence :: "cell sentence \<Rightarrow> minesweeperAI \<times> bool \<Rightarrow> minesweeperAI \<times> bool" where
  "scan_sentence s kc =
     (let new_mines = known_mines s;
          new_safes = known_safes s;
          kc1 = (if new_mines \<noteq> {} then (mark_mines new_mines (fst kc), True) else kc);
          kc2 = (if new_safes \<noteq> {} then (mark_safes new_safes (fst kc1), True) else kc1)
      in kc2)"

definition scan :: "minesweeperAI \<Rightarrow> minesweeperAI \<times> bool" where
  "scan k = fold scan_sentence (knowledge k) (k, False)"

text \<open>
  The \<^verbatim>\<open>while changes_made\<close> loop. It may run forever, so it is a partial function:
  \<open>None\<close> is the loop that never exits.
\<close>

partial_function (option) propagate :: "minesweeperAI \<Rightarrow> minesweeperAI option" where
  "propagate k =
     (case scan k of (k', changes_made) \<Rightarrow> if changes_made then propagate k' else Some k')"

declare propagate.simps [code]

text \<open>
  Step 4, subset elimination: the body of the two nested index loops for one pair, and
  the list \<^verbatim>\<open>new_inferences\<close> they build. \<open>kn\<close> is \<^verbatim>\<open>self.knowledge\<close>, which the
  loops do not change.
\<close>

definition infer_pair :: "'c sentence list \<Rightarrow> 'c sentence \<Rightarrow> 'c sentence \<Rightarrow> 'c sentence list" where
  "infer_pair kn sentence_1 sentence_2 =
     (if cells sentence_1 \<subseteq> cells sentence_2 then
        (let new_sentence =
               Sentence (cells sentence_2 - cells sentence_1) (count sentence_2 - count sentence_1)
         in if card (cells new_sentence) > 0 \<and> new_sentence \<notin> set kn then [new_sentence] else [])
      else if cells sentence_2 \<subseteq> cells sentence_1 then
        (let new_sentence =
               Sentence (cells sentence_1 - cells sentence_2) (count sentence_1 - count sentence_2)
         in if card (cells new_sentence) > 0 \<and> new_sentence \<notin> set kn then [new_sentence] else [])
      else [])"

definition new_inferences :: "'c sentence list \<Rightarrow> 'c sentence list" where
  "new_inferences kn =
     concat (map (\<lambda>i. concat (map (\<lambda>j. infer_pair kn (kn ! i) (kn ! j)) [i + 1 ..< length kn]))
                 [0 ..< length kn])"

definition subset_elimination :: "minesweeperAI \<Rightarrow> minesweeperAI" where
  "subset_elimination k = k\<lparr>knowledge := knowledge k @ new_inferences (knowledge k)\<rparr>"

definition add_knowledge :: "cell \<Rightarrow> int \<Rightarrow> minesweeperAI \<Rightarrow> minesweeperAI option" where
  "add_knowledge c n k =
     map_option subset_elimination (propagate (add_new_sentence c n (record_move c k)))"

subsection \<open>Move selection\<close>

text \<open>
  \<^verbatim>\<open>make_safe_move\<close> returns the first cell of \<^verbatim>\<open>self.safes\<close>, in the set's iteration
  order, that is neither played nor a known mine. The iteration order is a parameter:
  any list that enumerates \<open>safes\<close>.
\<close>

definition make_safe_move :: "cell list \<Rightarrow> minesweeperAI \<Rightarrow> cell option" where
  "make_safe_move order k = find (\<lambda>c. c \<notin> moves_made k \<and> c \<notin> mines k) order"

text \<open>
  \<^verbatim>\<open>random.choice\<close> raises \<^verbatim>\<open>IndexError\<close> on an empty sequence; \<open>rnd\<close> is the random
  draw.
\<close>

datatype error = IndexError

definition random_choice :: "nat \<Rightarrow> 'a list \<Rightarrow> error + 'a" where
  "random_choice rnd xs = (if xs = [] then Inl IndexError else Inr (xs ! (rnd mod length xs)))"

definition range_int :: "int \<Rightarrow> int list" where
  "range_int n = [0 .. n - 1]"

definition possible_moves :: "minesweeperAI \<Rightarrow> cell list" where
  "possible_moves k =
     filter (\<lambda>c. c \<notin> moves_made k \<and> c \<notin> mines k)
       (concat (map (\<lambda>i. map (\<lambda>j. (i, j)) (range_int (width k))) (range_int (height k))))"

definition make_random_move :: "nat \<Rightarrow> minesweeperAI \<Rightarrow> error + cell option" where
  "make_random_move rnd k =
     (let total_cells = height k * width k
      in if int (card (moves_made k)) + int (card (mines k)) \<ge> total_cells then Inr None
         else if possible_moves k \<noteq> []
              then map_sum id Some (random_choice rnd (possible_moves k))
              else Inr None)"

subsection \<open>Sequences of calls\<close>

text \<open>
  The calls a driver makes on a \<^verbatim>\<open>MinesweeperAI\<close>. \<open>run_op\<close> gives the object after
  one call, \<open>None\<close> when the call does not return (the propagation loop runs forever, or
  an exception leaves the method). The two move selectors assign to no attribute.
\<close>

datatype operation =
    Mark_mine cell
  | Mark_safe cell
  | Add_knowledge cell int
  | Make_safe_move "cell list"
  | Make_random_move nat

fun run_op :: "operation \<Rightarrow> minesweeperAI \<Rightarrow> minesweeperAI option" where
  "run_op (Mark_mine c) k = Some (mark_mine c k)"
| "run_op (Mark_safe c) k = Some (mark_safe c k)"
| "run_op (Add_knowledge c n) k = add_knowledge c n k"
| "run_op (Make_safe_move order) k = (case make_safe_move order k of _ \<Rightarrow> Some k)"
| "run_op (Make_random_move rnd) k =
     (case make_random_move rnd k of Inl e \<Rightarrow> None | Inr move \<Rightarrow> Some k)"

fun run_ops :: "operation list \<Rightarrow> minesweeperAI \<Rightarrow> minesweeperAI option" where
  "run_ops [] k = Some k"
| "run_ops (x # xs) k = (case run_op x k of None \<Rightarrow> None | Some k' \<Rightarrow> run_ops xs k')"

subsection \<open>The board (class Minesweeper)\<close>

text \<open>
  The fields of \<^verbatim>\<open>Minesweeper\<close> that \<^verbatim>\<open>nearby_mines\<close> reads: the dimensions and the
  list of rows of booleans. \<^verbatim>\<open>nearby_mines\<close> reads \<^verbatim>\<open>board[i][j]\<close> only behind its
  bounds check, so the index is never negative or out of range on a board of
  \<open>game_height\<close> rows of \<open>game_width\<close> entries.
\<close>

record minesweeper =
  game_height :: int
  game_width :: int
  board :: "bool list list"

definition nearby_mines :: "minesweeper \<Rightarrow> cell \<Rightarrow> int" where
  "nearby_mines g c =
     fold (\<lambda>n cnt.
             if n = c then cnt
             else if (0 \<le> fst n \<and> fst n < game_height g) \<and> (0 \<le> snd n \<and> snd n < game_width g)
                  then (if board g ! nat (fst n) ! nat (snd n) then cnt + 1 else cnt)
                  else cnt)
          (concat (map (\<lambda>i. map (\<lambda>j. (i, j)) [snd c - 1 .. snd c + 1]) [fst c - 1 .. fst c + 1]))
          0"

text \<open>The cells of the board that hold a mine.\<close>

definition mine_layout :: "minesweeper \<Rightarrow> cell set" where
  "mine_layout g =
     {c. (0 \<le> fst c \<and> fst c < game_height g) \<and> (0 \<le> snd c \<and> snd c < game_width g) \<and>
         board g ! nat (fst c) ! nat (snd c)}"

text \<open>
  A call is truthful for a board when it tells the engine something that is true of
  the board: a cell marked as a mine is one, a cell marked safe is none, and an
  observation is made on a cell that is no mine, with the count the board gives for it
  (as the driver does: \<^verbatim>\<open>ai.add_knowledge(move, game.nearby_mines(move))\<close> when the
  move is no mine).
\<close>

fun truthful :: "minesweeper \<Rightarrow> operation \<Rightarrow> bool" where
  "truthful g (Mark_mine c) = (c \<in> mine_layout g)"
| "truthful g (Mark_safe c) = (c \<notin> mine_layout g)"
| "truthful g (Add_knowledge c n) = (c \<notin> mine_layout g \<and> n = nearby_mines g c)"
| "truthful g (Make_safe_move order) = True"
| "truthful g (Make_random_move rnd) = True"

subsection \<open>Invariants\<close>

text \<open>
  \<open>kb_inv\<close>: the sets are finite and no stored sentence mentions a cell that is
  already known to be a mine or safe. \<open>unresolved\<close> is the union of the cells of the
  stored sentences.
\<close>

definition kb_inv :: "minesweeperAI \<Rightarrow> bool" where
  "kb_inv k \<longleftrightarrow>
     finite (moves_made k) \<and> finite (mines k) \<and> finite (safes k) \<and>
     list_all (\<lambda>s. finite (cells s) \<and> cells s \<inter> mines k = {} \<and> cells s \<inter> safes k = {})
       (knowledge k)"

definition unresolved :: "minesweeperAI \<Rightarrow> cell set" where
  "unresolved k = \<Union> (set (map cells (knowledge k)))"

text \<open>A sentence yields when a scan of the propagation loop marks cells from it.\<close>

definition yields :: "'c sentence \<Rightarrow> bool" where
  "yields s \<longleftrightarrow> known_mines s \<noteq> {} \<or> known_safes s \<noteq> {}"

text \<open>
  \<open>marks_only k k'\<close>: \<open>k'\<close> comes from \<open>k\<close> by marking cells, which is all the
  propagation loop does; \<open>grows k k'\<close>: no set and no stored sentence was lost.
\<close>

definition marks_only :: "minesweeperAI \<Rightarrow> minesweeperAI \<Rightarrow> bool" where
  "marks_only k k' \<longleftrightarrow>
     height k' = height k \<and> width k' = width k \<and> moves_made k' = moves_made k \<and>
     mines k \<subseteq> mines k' \<and> safes k \<subseteq> safes k' \<and>
     length (knowledge k') = length (knowledge k)"

definition grows :: "minesweeperAI \<Rightarrow> minesweeperAI \<Rightarrow> bool" where
  "grows k k' \<longleftrightarrow>
     height k' = height k \<and> width k' = width k \<and> moves_made k \<subseteq> moves_made k' \<and>
     mines k \<subseteq> mines k' \<and> safes k \<subseteq> safes k' \<and>
     length (knowledge k) \<le> length (knowledge k')"

text \<open>One pass of the body of the \<^verbatim>\<open>while\<close> loop, as a function on the object.\<close>

definition scan_once :: "minesweeperAI \<Rightarrow> minesweeperAI" where
  "scan_once k = fst (scan k)"

text \<open>
  \<open>sound M k\<close>: everything the engine holds is true of the mine layout \<open>M\<close>.
\<close>

definition sentence_sound :: "'c set \<Rightarrow> 'c sentence \<Rightarrow> bool" where
  "sentence_sound M s \<longleftrightarrow> finite (cells s) \<and> count s = int (card (cells s \<inter> M))"

definition sound :: "cell set \<Rightarrow> minesweeperAI \<Rightarrow> bool" where
  "sound M k \<longleftrightarrow>
     mines k \<subseteq> M \<and> safes k \<inter> M = {} \<and> list_all (sentence_sound M) (knowledge k)"

subsection \<open>Example engines\<close>

text \<open>
  Engines on a board of 2 rows and 3 columns with mines at \<open>(1,0)\<close> and \<open>(1,2)\<close>:
  \<open>engine_a\<close> after the observation of \<open>(0,0)\<close> with count 1, \<open>engine_b\<close> after the
  further observations of \<open>(0,1)\<close> with count 2 and of \<open>(0,2)\<close> with count 1. And engines
  on a board of one row and two columns: \<open>engine_m\<close> after \<open>(0,0)\<close> was marked as a mine,
  \<open>engine_n\<close> after \<open>(0,0)\<close> was then observed with count 0.
\<close>

definition engine_a :: minesweeperAI where
  "engine_a =
     \<lparr>height = 2, width = 3, moves_made = {(0, 0)}, mines = {}, safes = {(0, 0)},
        knowledge = [Sentence {(0, 1), (1, 0), (1, 1)} 1]\<rparr>"

definition engine_b :: minesweeperAI where
  "engine_b =
     \<lparr>height = 2, width = 3, moves_made = {(0, 0), (0, 1), (0, 2)}, mines = {(1, 0), (1, 2)},
        safes = {(0, 0), (0, 1), (0, 2), (1, 1)},
        knowledge = [Sentence {} 0, Sentence {} 0, Sentence {} 0, Sentence {} 0]\<rparr>"

definition engine_m :: minesweeperAI where
  "engine_m =
     \<lparr>height = 1, width = 2, moves_made = {}, mines = {(0, 0)}, safes = {}, knowledge = []\<rparr>"

definition engine_n :: minesweeperAI where
  "engine_n =
     \<lparr>height = 1, width = 2, moves_made = {(0, 0)}, mines = {(0, 0)}, safes = {(0, 0), (0, 1)},
        knowledge = [Sentence {} 0]\<rparr>"

text \<open>
  \<open>engine_c\<close>: one row, two columns, after the observation of \<open>(0,0)\<close> with count 0.
  \<open>engine_d\<close>: two rows, two columns, after the observations of \<open>(0,0)\<close> and of \<open>(0,1)\<close>,
  each with count 1 (one mine in the second row). \<open>engine_e\<close>: one row, five columns and
  no mine, after the observations of \<open>(0,0)\<close> and of \<open>(0,4)\<close> with count 0.
\<close>

definition engine_c :: minesweeperAI where
  "engine_c =
     \<lparr>height = 1, width = 2, moves_made = {(0, 0)}, mines = {}, safes = {(0, 0), (0, 1)},
        knowledge = [Sentence {} 0]\<rparr>"

definition engine_d :: minesweeperAI where
  "engine_d =
     \<lparr>height = 2, width = 2, moves_made = {(0, 0), (0, 1)}, mines = {},
        safes = {(0, 0), (0, 1)},
        knowledge = [Sentence {(1, 0), (1, 1)} 1, Sentence {(1, 0), (1, 1)} 1]\<rparr>"

definition engine_e :: minesweeperAI where
  "engine_e =
     \<lparr>height = 1, width = 5, moves_made = {(0, 0), (0, 4)}, mines = {},
        safes = {(0, 0), (0, 1), (0, 3), (0, 4)},
        knowledge = [Sentence {} 0, Sentence {} 0]\<rparr>"

text \<open>
  \<open>engine_o\<close>: one row, two columns, after \<open>(0,0)\<close> was marked as a mine and then as
  safe. \<open>game_a\<close>: the board of two rows and three columns with mines at \<open>(1,0)\<close> and
  \<open>(1,2)\<close>.
\<close>

definition engine_o :: minesweeperAI where
  "engine_o =
     \<lparr>height = 1, width = 2, moves_made = {}, mines = {(0, 0)}, safes = {(0, 0)},
        knowledge = []\<rparr>"

definition game_a :: minesweeper where
  "game_a =
     \<lparr>game_height = 2, game_width = 3,
        board = [[False, False, False], [True, False, True]]\<rparr>"

text \<open>
  \<open>engine_x\<close>: an object that no sequence of calls builds; its stored sentence names a
  cell that is in \<open>mines\<close>.
\<close>

definition engine_x :: minesweeperAI where
  "engine_x =
     \<lparr>height = 1, width = 2, moves_made = {}, mines = {(0, 1)}, safes = {},
        knowledge = [Sentence {(0, 1)} 1]\<rparr>"

section \<open>Properties\<close>

subsection \<open>Marking a cell\<close>

lemma mark_mine_fields [simp]:
  "mines (mark_mine c k) = insert c (mines k)"
  "safes (mark_mine c k) = safes k"
  "moves_made (mark_mine c k) = moves_made k"
  "height (mark_mine c k) = height k"
  "width (mark_mine c k) = width k"
  "length (knowledge (mark_mine c k)) = length (knowledge k)"
  by (auto simp: mark_mine_def)

lemma mark_safe_fields [simp]:
  "safes (mark_safe c k) = insert c (safes k)"
  "mines (mark_safe c k) = mines k"
  "moves_made (mark_safe c k) = moves_made k"
  "height (mark_safe c k) = height k"
  "width (mark_safe c k) = width k"
  "length (knowledge (mark_safe c k)) = length (knowledge k)"
  by (auto simp: mark_safe_def)

lemma knowledge_mark_mine:
  "knowledge (mark_mine c k) =
     (if c \<in> mines k then knowledge k
      else map (\<lambda>s. if c \<in> cells s then s\<lparr>cells := cells s - {c}, count := count s - 1\<rparr> else s)
             (knowledge k))"
  by (simp add: mark_mine_def Sentence_mark_mine_def if_distrib [of fst] cong: if_cong)

lemma knowledge_mark_safe:
  "knowledge (mark_safe c k) =
     (if c \<in> safes k then knowledge k
      else map (\<lambda>s. if c \<in> cells s then s\<lparr>cells := cells s - {c}\<rparr> else s) (knowledge k))"
  by (simp add: mark_safe_def Sentence_mark_safe_def if_distrib [of fst] cong: if_cong)

text \<open>
  Marking commutes and is idempotent, so a loop that marks every cell of a set gives the
  same object whatever order the set is iterated in.
\<close>

lemma Sentence_mark_mine_commute:
  "fst (Sentence_mark_mine a (fst (Sentence_mark_mine b s))) =
   fst (Sentence_mark_mine b (fst (Sentence_mark_mine a s)))"
proof -
  have "cells s - {b} - {a} = cells s - {a} - {b}" by blast
  then show ?thesis by (cases "a = b") (auto simp: Sentence_mark_mine_def)
qed

lemma Sentence_mark_safe_commute:
  "fst (Sentence_mark_safe a (fst (Sentence_mark_safe b s))) =
   fst (Sentence_mark_safe b (fst (Sentence_mark_safe a s)))"
proof -
  have "cells s - {b} - {a} = cells s - {a} - {b}" by blast
  then show ?thesis by (cases "a = b") (auto simp: Sentence_mark_safe_def)
qed

lemma mark_mine_commute: "mark_mine a (mark_mine b k) = mark_mine b (mark_mine a k)"
  by (cases "a = b") (auto simp: mark_mine_def insert_commute Sentence_mark_mine_commute)

lemma mark_mine_idem: "mark_mine a (mark_mine a k) = mark_mine a k"
  by (simp add: mark_mine_def)

lemma mark_safe_commute: "mark_safe a (mark_safe b k) = mark_safe b (mark_safe a k)"
  by (cases "a = b") (auto simp: mark_safe_def insert_commute Sentence_mark_safe_commute)

lemma mark_safe_idem: "mark_safe a (mark_safe a k) = mark_safe a k"
  by (simp add: mark_safe_def)

lemma comp_fun_idem_mark_mine: "comp_fun_idem_on UNIV mark_mine"
  by unfold_locales (auto simp: fun_eq_iff mark_mine_commute mark_mine_idem)

lemma comp_fun_idem_mark_safe: "comp_fun_idem_on UNIV mark_safe"
  by unfold_locales (auto simp: fun_eq_iff mark_safe_commute mark_safe_idem)

lemma mark_mines_any_order:
  assumes "set xs = new_mines"
  shows "fold mark_mine xs k = mark_mines new_mines k"
proof -
  have "fold mark_mine xs k = Finite_Set.fold mark_mine k (set xs)"
    by (simp add: comp_fun_idem_on.fold_set_fold [OF comp_fun_idem_mark_mine])
  also have "\<dots> = Finite_Set.fold mark_mine k (set (sorted_list_of_set new_mines))"
    unfolding assms [symmetric] by simp
  also have "\<dots> = fold mark_mine (sorted_list_of_set new_mines) k"
    by (simp add: comp_fun_idem_on.fold_set_fold [OF comp_fun_idem_mark_mine])
  finally show ?thesis by (simp add: mark_mines_def)
qed

lemma mark_safes_any_order:
  assumes "set xs = new_safes"
  shows "fold mark_safe xs k = mark_safes new_safes k"
proof -
  have "fold mark_safe xs k = Finite_Set.fold mark_safe k (set xs)"
    by (simp add: comp_fun_idem_on.fold_set_fold [OF comp_fun_idem_mark_safe])
  also have "\<dots> = Finite_Set.fold mark_safe k (set (sorted_list_of_set new_safes))"
    unfolding assms [symmetric] by simp
  also have "\<dots> = fold mark_safe (sorted_list_of_set new_safes) k"
    by (simp add: comp_fun_idem_on.fold_set_fold [OF comp_fun_idem_mark_safe])
  finally show ?thesis by (simp add: mark_safes_def)
qed

subsection \<open>The invariant of the knowledge base\<close>

lemma kb_inv_init: "kb_inv (init_ai h w)"
  by (simp add: kb_inv_def init_ai_def)

lemma kb_inv_mark_mine: "kb_inv k \<Longrightarrow> kb_inv (mark_mine c k)"
  by (auto simp: kb_inv_def knowledge_mark_mine list_all_iff disjoint_iff)

lemma kb_inv_mark_safe: "kb_inv k \<Longrightarrow> kb_inv (mark_safe c k)"
  by (auto simp: kb_inv_def knowledge_mark_safe list_all_iff disjoint_iff)

lemma finite_unresolved: "kb_inv k \<Longrightarrow> finite (unresolved k)"
  by (auto simp: kb_inv_def unresolved_def list_all_iff)

lemma unresolved_mark_mine: "kb_inv k \<Longrightarrow> unresolved (mark_mine c k) = unresolved k - {c}"
  by (auto simp: kb_inv_def unresolved_def knowledge_mark_mine list_all_iff disjoint_iff split: if_splits)

lemma unresolved_mark_safe: "kb_inv k \<Longrightarrow> unresolved (mark_safe c k) = unresolved k - {c}"
  by (auto simp: kb_inv_def unresolved_def knowledge_mark_safe list_all_iff disjoint_iff split: if_splits)

lemma fold_mark_mine_inv:
  "kb_inv k \<Longrightarrow>
   kb_inv (fold mark_mine xs k) \<and> unresolved (fold mark_mine xs k) = unresolved k - set xs"
  by (induction xs arbitrary: k) (auto simp: kb_inv_mark_mine unresolved_mark_mine)

lemma fold_mark_safe_inv:
  "kb_inv k \<Longrightarrow>
   kb_inv (fold mark_safe xs k) \<and> unresolved (fold mark_safe xs k) = unresolved k - set xs"
  by (induction xs arbitrary: k) (auto simp: kb_inv_mark_safe unresolved_mark_safe)

lemma mark_mines_inv:
  "kb_inv k \<Longrightarrow> finite S \<Longrightarrow>
   kb_inv (mark_mines S k) \<and> unresolved (mark_mines S k) = unresolved k - S"
  using fold_mark_mine_inv [of k "sorted_list_of_set S"] by (simp add: mark_mines_def)

lemma mark_safes_inv:
  "kb_inv k \<Longrightarrow> finite S \<Longrightarrow>
   kb_inv (mark_safes S k) \<and> unresolved (mark_safes S k) = unresolved k - S"
  using fold_mark_safe_inv [of k "sorted_list_of_set S"] by (simp add: mark_safes_def)

lemma finite_known:
  "finite (cells s) \<Longrightarrow> finite (known_mines s) \<and> finite (known_safes s)"
  by (simp add: known_mines_def known_safes_def)

lemma known_subset: "known_mines s \<subseteq> cells s \<and> known_safes s \<subseteq> cells s"
  by (simp add: known_mines_def known_safes_def)

subsection \<open>One scan of the propagation loop\<close>

lemma scan_sentence_inv:
  assumes "kb_inv k" and "finite (cells s)"
  shows "kb_inv (fst (scan_sentence s (k, ch)))"
    and "unresolved (fst (scan_sentence s (k, ch))) = unresolved k - (known_mines s \<union> known_safes s)"
    and "snd (scan_sentence s (k, ch)) = (ch \<or> yields s)"
  using assms finite_known [of s]
  by (auto simp: scan_sentence_def Let_def mark_mines_inv mark_safes_inv yields_def)

lemma fold_scan_inv:
  assumes "kb_inv k" and "list_all (\<lambda>s. finite (cells s)) ss"
  shows "kb_inv (fst (fold scan_sentence ss (k, ch))) \<and>
         unresolved (fst (fold scan_sentence ss (k, ch))) =
           unresolved k - \<Union> (set (map (\<lambda>s. known_mines s \<union> known_safes s) ss)) \<and>
         snd (fold scan_sentence ss (k, ch)) = (ch \<or> list_ex yields ss)"
  using assms
proof (induction ss arbitrary: k ch)
  case Nil
  then show ?case by simp
next
  case (Cons s ss)
  obtain k1 ch1 where s1: "scan_sentence s (k, ch) = (k1, ch1)"
    by (cases "scan_sentence s (k, ch)")
  from Cons.prems have fin: "finite (cells s)" and rest: "list_all (\<lambda>s. finite (cells s)) ss"
    by simp_all
  from scan_sentence_inv [OF Cons.prems(1) fin, of ch] s1
  have k1: "kb_inv k1"
    and u1: "unresolved k1 = unresolved k - (known_mines s \<union> known_safes s)"
    and c1: "ch1 = (ch \<or> yields s)"
    by simp_all
  from Cons.IH [OF k1 rest, of ch1] s1 u1 c1 show ?case
    by auto
qed


lemma snd_scan_sentence: "snd (scan_sentence s kc) = (snd kc \<or> yields s)"
  by (simp add: scan_sentence_def Let_def yields_def)

lemma scan_sentence_not_yields: "\<not> yields s \<Longrightarrow> scan_sentence s kc = kc"
  by (simp add: scan_sentence_def Let_def yields_def)

lemma fold_scan_no_change:
  "\<not> snd (fold scan_sentence ss kc) \<Longrightarrow>
   fold scan_sentence ss kc = kc \<and> \<not> list_ex yields ss"
proof (induction ss arbitrary: kc)
  case Nil
  then show ?case by simp
next
  case (Cons s ss)
  from Cons.prems have "\<not> snd (fold scan_sentence ss (scan_sentence s kc))" by simp
  from Cons.IH [OF this]
  have eq: "fold scan_sentence ss (scan_sentence s kc) = scan_sentence s kc"
    and no: "\<not> list_ex yields ss" by simp_all
  from Cons.prems eq have "\<not> snd (scan_sentence s kc)" by simp
  then have "\<not> yields s" by (simp add: snd_scan_sentence)
  with eq no show ?case by (simp add: scan_sentence_not_yields)
qed

lemma scan_no_change: "\<not> snd (scan k) \<Longrightarrow> scan k = (k, False)"
  using fold_scan_no_change [of "knowledge k" "(k, False)"] by (simp add: scan_def)

lemma scan_fixpoint:
  "scan k = (k, False) \<longleftrightarrow> list_all (\<lambda>s. known_mines s = {} \<and> known_safes s = {}) (knowledge k)"
proof
  assume "scan k = (k, False)"
  then have "\<not> snd (fold scan_sentence (knowledge k) (k, False))" by (simp add: scan_def)
  from fold_scan_no_change [OF this] show "list_all (\<lambda>s. known_mines s = {} \<and> known_safes s = {}) (knowledge k)"
    by (simp add: list_all_iff list_ex_iff yields_def)
next
  assume a: "list_all (\<lambda>s. known_mines s = {} \<and> known_safes s = {}) (knowledge k)"
  have "list_all (\<lambda>s. \<not> yields s) ss \<Longrightarrow> fold scan_sentence ss kc = kc" for ss kc
    by (induction ss) (simp_all add: scan_sentence_not_yields)
  from this [of "knowledge k" "(k, False)"] a show "scan k = (k, False)"
    by (simp add: scan_def yields_def)
qed

lemma kb_inv_scan: "kb_inv k \<Longrightarrow> kb_inv (fst (scan k))"
  using fold_scan_inv [of k "knowledge k" False]
  by (simp add: scan_def kb_inv_def list_all_iff)

lemma scan_shrinks:
  assumes "kb_inv k" and "snd (scan k)"
  shows "card (unresolved (fst (scan k))) < card (unresolved k)"
proof -
  have fin: "list_all (\<lambda>s. finite (cells s)) (knowledge k)"
    using assms(1) by (simp add: kb_inv_def list_all_iff)
  note fs = fold_scan_inv [OF assms(1) fin, of False, folded scan_def]
  from fs assms(2) have "list_ex yields (knowledge k)" by simp
  then obtain s c where s: "s \<in> set (knowledge k)" and c: "c \<in> known_mines s \<union> known_safes s"
    by (auto simp: list_ex_iff yields_def)
  from c known_subset [of s] have "c \<in> cells s" by auto
  with s have "c \<in> unresolved k" by (auto simp: unresolved_def)
  moreover from fs s c have "c \<notin> unresolved (fst (scan k))" by auto
  moreover from fs have "unresolved (fst (scan k)) \<subseteq> unresolved k" by auto
  ultimately have "unresolved (fst (scan k)) \<subset> unresolved k" by auto
  then show ?thesis
    by (rule psubset_card_mono [OF finite_unresolved [OF assms(1)]])
qed

subsection \<open>The propagation loop returns\<close>

lemma propagate_terminates:
  "kb_inv k \<Longrightarrow> \<exists>k'. propagate k = Some k' \<and> kb_inv k' \<and> scan k' = (k', False)"
proof (induction "card (unresolved k)" arbitrary: k rule: less_induct)
  case less
  show ?case
  proof (cases "snd (scan k)")
    case True
    from less.hyps [OF scan_shrinks [OF less.prems True] kb_inv_scan [OF less.prems]]
    obtain k' where "propagate (fst (scan k)) = Some k'" "kb_inv k'" "scan k' = (k', False)"
      by blast
    with True show ?thesis
      by (subst propagate.simps) (simp add: split_beta)
  next
    case False
    then have "scan k = (k, False)" by (rule scan_no_change)
    with less.prems show ?thesis
      by (subst propagate.simps) simp
  qed
qed

text \<open>
  A property that every scan keeps is kept by the loop (partial correctness, by the
  induction rule of the partial function).
\<close>

lemma propagate_preserves:
  assumes step: "\<And>k. Q k \<Longrightarrow> Q (fst (scan k))"
    and run: "propagate k = Some k'" and start: "Q k"
  shows "Q k'"
proof -
  have "Q k \<longrightarrow> Q k'"
  proof (rule propagate.raw_induct [where P = "\<lambda>k k'. Q k \<longrightarrow> Q k'", OF _ run])
    fix p k ka
    assume ih: "\<And>x y. p x = Some y \<Longrightarrow> Q x \<longrightarrow> Q y"
      and eq: "(case scan k of (k', ch) \<Rightarrow> if ch then p k' else Some k') = Some ka"
    show "Q k \<longrightarrow> Q ka"
    proof
      assume q: "Q k"
      show "Q ka"
      proof (cases "snd (scan k)")
        case True
        with eq have "p (fst (scan k)) = Some ka" by (simp add: split_beta)
        from ih [OF this] step [OF q] show ?thesis by simp
      next
        case False
        with eq have "ka = fst (scan k)" by (simp add: split_beta)
        with step [OF q] show ?thesis by simp
      qed
    qed
  qed
  with start show ?thesis by simp
qed

text \<open>
  The invariant is what makes the loop exit. In \<open>engine_x\<close>, an object that no sequence
  of calls builds, the stored sentence names a cell that is already in \<open>mines\<close>: each scan
  finds the sentence's cell as a known mine, \<^verbatim>\<open>mark_mine\<close> does nothing for a cell that
  is in \<open>mines\<close>, \<^verbatim>\<open>changes_made\<close> is set, and the loop does not exit.
\<close>

lemma scan_engine_x: "scan engine_x = (engine_x, True)"
  by code_simp

lemma propagate_engine_x: "\<not> kb_inv engine_x \<and> propagate engine_x = None"
proof
  show "\<not> kb_inv engine_x" by (simp add: kb_inv_def engine_x_def Sentence_def)
  show "propagate engine_x = None"
  proof (rule propagate.fixp_induct [where P = "\<lambda>f. f engine_x = None"])
    show "option.admissible (\<lambda>f. f engine_x = None)"
      by (rule ccpo.admissibleI) (auto simp: fun_lub_def flat_lub_def)
  next
    show "(\<lambda>propagate. None) engine_x = None" by simp
  next
    fix f :: "minesweeperAI \<Rightarrow> minesweeperAI option"
    assume "f engine_x = None"
    then show "(case scan engine_x of (k', changes_made) \<Rightarrow>
        if changes_made then f k' else Some k') = None"
      by (simp add: scan_engine_x)
  qed
qed

subsection \<open>The new sentence of an observation\<close>

lemma adjust_count_eq:
  "adjust_count k ns (cnt, new_cells) =
     (cnt - int (length (filter (\<lambda>n. n \<in> mines k) ns)),
      new_cells \<union> {n \<in> set ns. n \<notin> mines k \<and> n \<notin> safes k})"
  by (induction ns arbitrary: cnt new_cells) auto

lemma new_sentence_of_eq:
  "new_sentence_of c n k =
     Sentence {x \<in> set (neighbor_cells (height k) (width k) c). x \<notin> mines k \<and> x \<notin> safes k}
       (n - int (length (filter (\<lambda>x. x \<in> mines k) (neighbor_cells (height k) (width k) c))))"
  by (simp add: new_sentence_of_def adjust_count_eq)

lemma cells_Sentence [simp]: "cells (Sentence cs n) = cs"
  and count_Sentence [simp]: "count (Sentence cs n) = n"
  by (simp_all add: Sentence_def)

lemma knowledge_add_new_sentence:
  "knowledge (add_new_sentence c n k) =
     knowledge k @ (if cells (new_sentence_of c n k) \<noteq> {} then [new_sentence_of c n k] else [])"
proof -
  have "finite (cells (new_sentence_of c n k))"
    by (simp add: new_sentence_of_eq)
  then show ?thesis
    by (auto simp: add_new_sentence_def Let_def card_gt_0_iff)
qed

lemma add_new_sentence_fields [simp]:
  "mines (add_new_sentence c n k) = mines k"
  "safes (add_new_sentence c n k) = safes k"
  "moves_made (add_new_sentence c n k) = moves_made k"
  "height (add_new_sentence c n k) = height k"
  "width (add_new_sentence c n k) = width k"
  by (simp_all add: add_new_sentence_def Let_def)

lemma record_move_fields [simp]:
  "mines (record_move c k) = mines k"
  "safes (record_move c k) = insert c (safes k)"
  "moves_made (record_move c k) = insert c (moves_made k)"
  "height (record_move c k) = height k"
  "width (record_move c k) = width k"
  "length (knowledge (record_move c k)) = length (knowledge k)"
  by (simp_all add: record_move_def)

lemma kb_inv_record_move: "kb_inv k \<Longrightarrow> kb_inv (record_move c k)"
proof -
  assume "kb_inv k"
  then have "kb_inv (k\<lparr>moves_made := insert c (moves_made k)\<rparr>)"
    by (simp add: kb_inv_def)
  then show ?thesis unfolding record_move_def by (rule kb_inv_mark_safe)
qed

lemma new_sentence_of_unknown:
  "finite (cells (new_sentence_of c n k))"
  "cells (new_sentence_of c n k) \<inter> mines k = {}"
  "cells (new_sentence_of c n k) \<inter> safes k = {}"
  by (auto simp: new_sentence_of_eq)

lemma kb_inv_add_new_sentence: "kb_inv k \<Longrightarrow> kb_inv (add_new_sentence c n k)"
  by (simp add: kb_inv_def knowledge_add_new_sentence new_sentence_of_unknown)

subsection \<open>Subset elimination\<close>

lemma set_infer_pair:
  "set (infer_pair kn s1 s2) =
     {d. card (cells d) > 0 \<and> d \<notin> set kn \<and>
         (if cells s1 \<subseteq> cells s2 then d = Sentence (cells s2 - cells s1) (count s2 - count s1)
          else cells s2 \<subseteq> cells s1 \<and> d = Sentence (cells s1 - cells s2) (count s1 - count s2))}"
  by (auto simp: infer_pair_def Let_def)

lemma set_new_inferences:
  "set (new_inferences kn) =
     {d. \<exists>i j. i < j \<and> j < length kn \<and> d \<in> set (infer_pair kn (kn ! i) (kn ! j))}"
proof (rule set_eqI)
  fix d
  have "d \<in> set (new_inferences kn) \<longleftrightarrow>
        (\<exists>i\<in>{0..<length kn}. \<exists>j\<in>{i + 1..<length kn}. d \<in> set (infer_pair kn (kn ! i) (kn ! j)))"
    by (simp add: new_inferences_def)
  also have "\<dots> \<longleftrightarrow> (\<exists>i j. i < j \<and> j < length kn \<and> d \<in> set (infer_pair kn (kn ! i) (kn ! j)))"
  proof
    assume "\<exists>i\<in>{0..<length kn}. \<exists>j\<in>{i + 1..<length kn}. d \<in> set (infer_pair kn (kn ! i) (kn ! j))"
    then obtain i j where "i < length kn" "i + 1 \<le> j" "j < length kn"
      "d \<in> set (infer_pair kn (kn ! i) (kn ! j))" by auto
    then have "i < j \<and> j < length kn \<and> d \<in> set (infer_pair kn (kn ! i) (kn ! j))" by simp
    then show "\<exists>i j. i < j \<and> j < length kn \<and> d \<in> set (infer_pair kn (kn ! i) (kn ! j))" by blast
  next
    assume "\<exists>i j. i < j \<and> j < length kn \<and> d \<in> set (infer_pair kn (kn ! i) (kn ! j))"
    then obtain i j where ij: "i < j" "j < length kn" and d: "d \<in> set (infer_pair kn (kn ! i) (kn ! j))"
      by blast
    from ij have "i \<in> {0..<length kn}" "j \<in> {i + 1..<length kn}" by simp_all
    with d show "\<exists>i\<in>{0..<length kn}. \<exists>j\<in>{i + 1..<length kn}. d \<in> set (infer_pair kn (kn ! i) (kn ! j))"
      by blast
  qed
  finally show "d \<in> set (new_inferences kn) \<longleftrightarrow>
      d \<in> {d. \<exists>i j. i < j \<and> j < length kn \<and> d \<in> set (infer_pair kn (kn ! i) (kn ! j))}"
    by simp
qed

lemma new_inferences_fresh: "d \<in> set (new_inferences kn) \<Longrightarrow> d \<notin> set kn"
proof -
  assume "d \<in> set (new_inferences kn)"
  then obtain i j where "d \<in> set (infer_pair kn (kn ! i) (kn ! j))"
    unfolding set_new_inferences by blast
  then show ?thesis
    unfolding set_infer_pair by blast
qed

lemma new_inferences_nonempty: "d \<in> set (new_inferences kn) \<Longrightarrow> cells d \<noteq> {}"
proof -
  assume "d \<in> set (new_inferences kn)"
  then obtain i j where "d \<in> set (infer_pair kn (kn ! i) (kn ! j))"
    unfolding set_new_inferences by blast
  then have "card (cells d) > 0"
    by (simp add: set_infer_pair)
  then show ?thesis by (cases "cells d = {}") simp_all
qed

lemma new_inferences_subset:
  "d \<in> set (new_inferences kn) \<Longrightarrow> \<exists>s\<in>set kn. cells d \<subseteq> cells s"
proof -
  assume "d \<in> set (new_inferences kn)"
  then obtain i j where ij: "i < j" "j < length kn" and d: "d \<in> set (infer_pair kn (kn ! i) (kn ! j))"
    by (auto simp: set_new_inferences)
  from d have "cells d \<subseteq> cells (kn ! i) \<or> cells d \<subseteq> cells (kn ! j)"
    by (auto simp: set_infer_pair split: if_splits)
  with ij show ?thesis by (metis nth_mem order_less_trans)
qed

lemma subset_elimination_fields [simp]:
  "mines (subset_elimination k) = mines k"
  "safes (subset_elimination k) = safes k"
  "moves_made (subset_elimination k) = moves_made k"
  "height (subset_elimination k) = height k"
  "width (subset_elimination k) = width k"
  "knowledge (subset_elimination k) = knowledge k @ new_inferences (knowledge k)"
  by (simp_all add: subset_elimination_def)

lemma kb_inv_subset_elimination: "kb_inv k \<Longrightarrow> kb_inv (subset_elimination k)"
proof -
  assume inv: "kb_inv k"
  have "finite (cells d) \<and> cells d \<inter> mines k = {} \<and> cells d \<inter> safes k = {}"
    if "d \<in> set (new_inferences (knowledge k))" for d
  proof -
    from new_inferences_subset [OF that] obtain s
      where s: "s \<in> set (knowledge k)" and sub: "cells d \<subseteq> cells s" by blast
    from inv s have fin: "finite (cells s)"
      and dis: "cells s \<inter> mines k = {}" "cells s \<inter> safes k = {}"
      by (simp_all add: kb_inv_def list_all_iff)
    from finite_subset [OF sub fin] sub dis show ?thesis by blast
  qed
  with inv show ?thesis
    by (simp add: kb_inv_def list_all_iff ball_Un)
qed

subsection \<open>Every call returns and keeps the invariant\<close>

lemma add_knowledge_returns:
  assumes "kb_inv k"
  shows "\<exists>k'. add_knowledge c n k = Some k' \<and> kb_inv k'"
proof -
  have "kb_inv (add_new_sentence c n (record_move c k))"
    by (intro kb_inv_add_new_sentence kb_inv_record_move assms)
  from propagate_terminates [OF this] show ?thesis
    by (auto simp: add_knowledge_def kb_inv_subset_elimination)
qed

lemma make_random_move_no_error: "make_random_move rnd k \<noteq> Inl e"
  by (simp add: make_random_move_def Let_def random_choice_def)

lemma run_op_returns:
  assumes "kb_inv k"
  shows "\<exists>k'. run_op x k = Some k' \<and> kb_inv k'"
proof (cases x)
  case (Add_knowledge c n)
  with add_knowledge_returns [OF assms] show ?thesis by simp
next
  case (Make_random_move rnd)
  with assms make_random_move_no_error [of rnd k] show ?thesis
    by (cases "make_random_move rnd k") auto
qed (use assms in \<open>simp_all add: kb_inv_mark_mine kb_inv_mark_safe\<close>)

lemma run_ops_returns:
  "kb_inv k \<Longrightarrow> \<exists>k'. run_ops xs k = Some k' \<and> kb_inv k'"
proof (induction xs arbitrary: k)
  case Nil
  then show ?case by simp
next
  case (Cons x xs)
  from run_op_returns [OF Cons.prems, of x] obtain k1
    where "run_op x k = Some k1" "kb_inv k1" by blast
  with Cons.IH [of k1] show ?case by simp
qed

lemma run_ops_append:
  "run_ops (xs @ ys) k = (case run_ops xs k of None \<Rightarrow> None | Some k' \<Rightarrow> run_ops ys k')"
  by (induction xs arbitrary: k) (simp_all split: option.splits)

text \<open>The derivations of subset elimination, for finite cell sets.\<close>

lemma infer_pair_iff:
  assumes f1: "finite (cells s1)" and f2: "finite (cells s2)"
  shows "d \<in> set (infer_pair kn s1 s2) \<longleftrightarrow>
           (cells s1 \<subseteq> cells s2 \<and> d = Sentence (cells s2 - cells s1) (count s2 - count s1) \<or>
            cells s2 \<subseteq> cells s1 \<and> d = Sentence (cells s1 - cells s2) (count s1 - count s2)) \<and>
           cells d \<noteq> {} \<and> d \<notin> set kn"
proof -
  define d21 where "d21 = Sentence (cells s2 - cells s1) (count s2 - count s1)"
  define d12 where "d12 = Sentence (cells s1 - cells s2) (count s1 - count s2)"
  have c21: "card (cells d21) > 0 \<longleftrightarrow> cells d21 \<noteq> {}"
    using f2 by (simp add: d21_def card_gt_0_iff)
  have c12: "card (cells d12) > 0 \<longleftrightarrow> cells d12 \<noteq> {}"
    using f1 by (simp add: d12_def card_gt_0_iff)
  have ip: "infer_pair kn s1 s2 =
      (if cells s1 \<subseteq> cells s2 then (if cells d21 \<noteq> {} \<and> d21 \<notin> set kn then [d21] else [])
       else if cells s2 \<subseteq> cells s1 then (if cells d12 \<noteq> {} \<and> d12 \<notin> set kn then [d12] else [])
       else [])"
    unfolding infer_pair_def Let_def d21_def [symmetric] d12_def [symmetric] c21 c12 ..
  show ?thesis
    unfolding d21_def [symmetric] d12_def [symmetric]
  proof (cases "cells s1 \<subseteq> cells s2")
    case True
    show "d \<in> set (infer_pair kn s1 s2) \<longleftrightarrow>
           (cells s1 \<subseteq> cells s2 \<and> d = d21 \<or> cells s2 \<subseteq> cells s1 \<and> d = d12) \<and>
           cells d \<noteq> {} \<and> d \<notin> set kn"
    proof (cases "cells s2 \<subseteq> cells s1")
      case both: True
      with True have "cells d21 = {}" "cells d12 = {}"
        by (auto simp: d21_def d12_def)
      with True both show ?thesis by (auto simp: ip)
    next
      case False
      with True show ?thesis by (auto simp: ip)
    qed
  next
    case False
    then show "d \<in> set (infer_pair kn s1 s2) \<longleftrightarrow>
           (cells s1 \<subseteq> cells s2 \<and> d = d21 \<or> cells s2 \<subseteq> cells s1 \<and> d = d12) \<and>
           cells d \<noteq> {} \<and> d \<notin> set kn"
      by (auto simp: ip)
  qed
qed


lemma set_new_inferences_finite:
  assumes "list_all (\<lambda>s. finite (cells s)) kn"
  shows "set (new_inferences kn) =
           {d. \<exists>i j. i < j \<and> j < length kn \<and>
                 (cells (kn ! i) \<subseteq> cells (kn ! j) \<and>
                    d = Sentence (cells (kn ! j) - cells (kn ! i)) (count (kn ! j) - count (kn ! i)) \<or>
                  cells (kn ! j) \<subseteq> cells (kn ! i) \<and>
                    d = Sentence (cells (kn ! i) - cells (kn ! j)) (count (kn ! i) - count (kn ! j))) \<and>
                 cells d \<noteq> {} \<and> d \<notin> set kn}"
    (is "_ = ?R")
proof (rule set_eqI)
  fix d
  have fin: "finite (cells (kn ! i))" if "i < length kn" for i
    using assms that by (simp add: list_all_length)
  show "d \<in> set (new_inferences kn) \<longleftrightarrow> d \<in> ?R"
  proof
    assume "d \<in> set (new_inferences kn)"
    then obtain i j where ij: "i < j" "j < length kn"
      and d: "d \<in> set (infer_pair kn (kn ! i) (kn ! j))"
      unfolding set_new_inferences by blast
    from ij have "i < length kn" by simp
    from d [unfolded infer_pair_iff [OF fin [OF this] fin [OF ij(2)]]] ij
    show "d \<in> ?R" by blast
  next
    assume "d \<in> ?R"
    then obtain i j where ij: "i < j" "j < length kn"
      and d: "(cells (kn ! i) \<subseteq> cells (kn ! j) \<and>
                    d = Sentence (cells (kn ! j) - cells (kn ! i)) (count (kn ! j) - count (kn ! i)) \<or>
                  cells (kn ! j) \<subseteq> cells (kn ! i) \<and>
                    d = Sentence (cells (kn ! i) - cells (kn ! j)) (count (kn ! i) - count (kn ! j))) \<and>
                 cells d \<noteq> {} \<and> d \<notin> set kn"
      by blast
    from ij have "i < length kn" by simp
    from d have "d \<in> set (infer_pair kn (kn ! i) (kn ! j))"
      unfolding infer_pair_iff [OF fin [OF \<open>i < length kn\<close>] fin [OF ij(2)]] .
    with ij show "d \<in> set (new_inferences kn)"
      unfolding set_new_inferences by blast
  qed
qed

lemma add_knowledge_stages:
  "add_knowledge c n k = Some k' \<Longrightarrow>
     \<exists>k3. propagate (add_new_sentence c n (record_move c k)) = Some k3 \<and>
          k' = subset_elimination k3"
  by (auto simp: add_knowledge_def)

subsection \<open>What the calls keep\<close>

lemma marks_only_refl: "marks_only k k"
  by (simp add: marks_only_def)

lemma marks_only_trans: "marks_only a b \<Longrightarrow> marks_only b c \<Longrightarrow> marks_only a c"
  by (auto simp: marks_only_def)

lemma marks_only_mark_mine: "marks_only k (mark_mine c k)"
  by (auto simp: marks_only_def)

lemma marks_only_mark_safe: "marks_only k (mark_safe c k)"
  by (auto simp: marks_only_def)

lemma marks_only_fold_mark_mine: "marks_only k (fold mark_mine xs k)"
proof (induction xs arbitrary: k)
  case Nil
  show ?case by (simp add: marks_only_refl)
next
  case (Cons x xs)
  from marks_only_trans [OF marks_only_mark_mine Cons.IH] show ?case by simp
qed

lemma marks_only_fold_mark_safe: "marks_only k (fold mark_safe xs k)"
proof (induction xs arbitrary: k)
  case Nil
  show ?case by (simp add: marks_only_refl)
next
  case (Cons x xs)
  from marks_only_trans [OF marks_only_mark_safe Cons.IH] show ?case by simp
qed

lemma marks_only_scan_sentence: "marks_only (fst kc) (fst (scan_sentence s kc))"
proof -
  let ?k1 = "if known_mines s \<noteq> {} then mark_mines (known_mines s) (fst kc) else fst kc"
  let ?k2 = "if known_safes s \<noteq> {} then mark_safes (known_safes s) ?k1 else ?k1"
  have "marks_only (fst kc) ?k1"
    by (simp add: mark_mines_def marks_only_fold_mark_mine marks_only_refl)
  moreover have "marks_only ?k1 ?k2"
    by (simp add: mark_safes_def marks_only_fold_mark_safe marks_only_refl)
  ultimately have "marks_only (fst kc) ?k2" by (rule marks_only_trans)
  moreover have "fst (scan_sentence s kc) = ?k2"
    by (simp add: scan_sentence_def Let_def)
  ultimately show ?thesis by simp
qed

lemma marks_only_fold_scan: "marks_only (fst kc) (fst (fold scan_sentence ss kc))"
proof (induction ss arbitrary: kc)
  case Nil
  show ?case by (simp add: marks_only_refl)
next
  case (Cons s ss)
  from marks_only_trans [OF marks_only_scan_sentence Cons.IH] show ?case by simp
qed

lemma marks_only_scan: "marks_only k (fst (scan k))"
  using marks_only_fold_scan [of "(k, False)" "knowledge k"] by (simp add: scan_def)

lemma marks_only_propagate: "propagate k = Some k' \<Longrightarrow> marks_only k k'"
proof -
  assume run: "propagate k = Some k'"
  have "marks_only k (fst (scan x))" if "marks_only k x" for x
    using that marks_only_scan by (rule marks_only_trans)
  from propagate_preserves [where Q = "marks_only k", OF this run marks_only_refl]
  show ?thesis .
qed

lemma grows_refl: "grows k k"
  by (simp add: grows_def)

lemma grows_trans: "grows a b \<Longrightarrow> grows b c \<Longrightarrow> grows a c"
  by (auto simp: grows_def)

lemma marks_only_grows: "marks_only k k' \<Longrightarrow> grows k k'"
  by (auto simp: marks_only_def grows_def)

lemma grows_add_knowledge:
  assumes "add_knowledge c n k = Some k'"
  shows "grows k k'"
proof -
  from add_knowledge_stages [OF assms] obtain k3
    where run: "propagate (add_new_sentence c n (record_move c k)) = Some k3"
      and k': "k' = subset_elimination k3" by blast
  have "grows k (add_new_sentence c n (record_move c k))"
    by (auto simp: grows_def knowledge_add_new_sentence)
  moreover from marks_only_propagate [OF run]
  have "grows (add_new_sentence c n (record_move c k)) k3" by (rule marks_only_grows)
  moreover have "grows k3 k'" by (simp add: grows_def k')
  ultimately show ?thesis by (blast intro: grows_trans)
qed

lemma grows_run_op: "run_op x k = Some k' \<Longrightarrow> grows k k'"
proof (cases x)
  case (Add_knowledge c n)
  assume "run_op x k = Some k'"
  with Add_knowledge show ?thesis by (simp add: grows_add_knowledge)
next
  case (Mark_mine c)
  assume "run_op x k = Some k'"
  with Mark_mine show ?thesis by (auto simp: marks_only_grows marks_only_mark_mine)
next
  case (Mark_safe c)
  assume "run_op x k = Some k'"
  with Mark_safe show ?thesis by (auto simp: marks_only_grows marks_only_mark_safe)
next
  case (Make_safe_move order)
  assume "run_op x k = Some k'"
  with Make_safe_move show ?thesis by (auto simp: grows_refl)
next
  case (Make_random_move rnd)
  assume "run_op x k = Some k'"
  with Make_random_move show ?thesis by (auto simp: grows_refl split: sum.splits)
qed

lemma grows_run_ops: "run_ops xs k = Some k' \<Longrightarrow> grows k k'"
proof (induction xs arbitrary: k)
  case Nil
  then show ?case by (simp add: grows_refl)
next
  case (Cons x xs)
  from Cons.prems obtain k1 where k1: "run_op x k = Some k1" and rest: "run_ops xs k1 = Some k'"
    by (auto split: option.splits)
  from grows_trans [OF grows_run_op [OF k1] Cons.IH [OF rest]] show ?case .
qed

lemma kb_inv_run_ops: "run_ops xs (init_ai h w) = Some k \<Longrightarrow> kb_inv k"
  using run_ops_returns [OF kb_inv_init, of xs h w] by auto

text \<open>Every observed cell is recorded as safe.\<close>

lemma played_safe_run_op:
  assumes "run_op x k = Some k'" and "moves_made k \<subseteq> safes k"
  shows "moves_made k' \<subseteq> safes k'"
proof (cases x)
  case (Add_knowledge c n)
  with assms(1) have "add_knowledge c n k = Some k'" by simp
  from add_knowledge_stages [OF this] obtain k3
    where run: "propagate (add_new_sentence c n (record_move c k)) = Some k3"
      and k': "k' = subset_elimination k3" by blast
  from marks_only_propagate [OF run] assms(2) have "moves_made k3 \<subseteq> safes k3"
    by (auto simp: marks_only_def)
  then show ?thesis by (simp add: k')
next
  case (Make_random_move rnd)
  with assms show ?thesis by (auto split: sum.splits)
qed (use assms in auto)

lemma played_safe_run_ops:
  "run_ops xs k = Some k' \<Longrightarrow> moves_made k \<subseteq> safes k \<Longrightarrow> moves_made k' \<subseteq> safes k'"
proof (induction xs arbitrary: k)
  case Nil
  then show ?case by simp
next
  case (Cons x xs)
  from Cons.prems(1) obtain k1 where k1: "run_op x k = Some k1" and rest: "run_ops xs k1 = Some k'"
    by (auto split: option.splits)
  from Cons.IH [OF rest played_safe_run_op [OF k1 Cons.prems(2)]] show ?case .
qed

text \<open>The loop exits after finitely many scans.\<close>

lemma propagate_scans:
  "kb_inv k \<Longrightarrow>
   \<exists>n. propagate k = Some ((scan_once ^^ n) k) \<and> \<not> snd (scan ((scan_once ^^ n) k)) \<and>
       (\<forall>m<n. snd (scan ((scan_once ^^ m) k)))"
proof (induction "card (unresolved k)" arbitrary: k rule: less_induct)
  case less
  show ?case
  proof (cases "snd (scan k)")
    case True
    from less.hyps [OF scan_shrinks [OF less.prems True] kb_inv_scan [OF less.prems]]
    obtain n where n: "propagate (fst (scan k)) = Some ((scan_once ^^ n) (fst (scan k)))"
      "\<not> snd (scan ((scan_once ^^ n) (fst (scan k))))"
      "\<forall>m<n. snd (scan ((scan_once ^^ m) (fst (scan k))))"
      by blast
    have shift: "(scan_once ^^ m) (fst (scan k)) = (scan_once ^^ Suc m) k" for m
      by (simp add: funpow_swap1 scan_once_def)
    from True n(1) have "propagate k = Some ((scan_once ^^ Suc n) k)"
      unfolding shift by (subst propagate.simps) (simp add: split_beta)
    moreover from n(2) have "\<not> snd (scan ((scan_once ^^ Suc n) k))"
      unfolding shift .
    moreover have "snd (scan ((scan_once ^^ m) k))" if "m < Suc n" for m
    proof (cases m)
      case 0
      with True show ?thesis by simp
    next
      case (Suc m')
      with that n(3) have "snd (scan ((scan_once ^^ m') (fst (scan k))))" by simp
      then show ?thesis unfolding shift Suc .
    qed
    ultimately show ?thesis by blast
  next
    case False
    then have "scan k = (k, False)" by (rule scan_no_change)
    then have "propagate k = Some ((scan_once ^^ 0) k)"
      by (subst propagate.simps) simp
    with False show ?thesis by (intro exI [of _ 0]) simp
  qed
qed

subsection \<open>The random move\<close>

lemma make_random_move_done:
  "int (card (moves_made k)) + int (card (mines k)) \<ge> height k * width k \<Longrightarrow>
   make_random_move rnd k = Inr None"
  by (simp add: make_random_move_def Let_def)

lemma make_random_move_no_candidate:
  "possible_moves k = [] \<Longrightarrow> make_random_move rnd k = Inr None"
  by (simp add: make_random_move_def Let_def)

lemma make_random_move_candidate:
  assumes "\<not> int (card (moves_made k)) + int (card (mines k)) \<ge> height k * width k"
    and "possible_moves k \<noteq> []"
  shows "\<exists>c\<in>set (possible_moves k). make_random_move rnd k = Inr (Some c)"
proof -
  from assms(2) have "rnd mod length (possible_moves k) < length (possible_moves k)"
    by simp
  then have "possible_moves k ! (rnd mod length (possible_moves k)) \<in> set (possible_moves k)"
    by (rule nth_mem)
  moreover from assms have "make_random_move rnd k =
      Inr (Some (possible_moves k ! (rnd mod length (possible_moves k))))"
    by (simp add: make_random_move_def Let_def random_choice_def)
  ultimately show ?thesis by blast
qed

lemma set_grid: "set (concat (map (\<lambda>i. map (\<lambda>j. (i, j)) ys) xs)) = set xs \<times> set ys"
  by auto

lemma set_possible_moves:
  "set (possible_moves k) =
     {c. (0 \<le> fst c \<and> fst c < height k) \<and> (0 \<le> snd c \<and> snd c < width k) \<and>
         c \<notin> moves_made k \<and> c \<notin> mines k}"
proof -
  have "set (possible_moves k) =
      {c \<in> {0..height k - 1} \<times> {0..width k - 1}. c \<notin> moves_made k \<and> c \<notin> mines k}"
    by (simp only: possible_moves_def range_int_def set_filter set_grid set_upto)
  also have "\<dots> = {c. (0 \<le> fst c \<and> fst c < height k) \<and> (0 \<le> snd c \<and> snd c < width k) \<and>
         c \<notin> moves_made k \<and> c \<notin> mines k}"
    by auto
  finally show ?thesis .
qed

text \<open>
  On a board with non-negative dimensions the count check implies that a candidate
  exists: the case of a passed check without a candidate does not arise.
\<close>

lemma candidate_exists:
  assumes dims: "0 \<le> height k" "0 \<le> width k"
    and fin: "finite (moves_made k)" "finite (mines k)"
    and check: "\<not> int (card (moves_made k)) + int (card (mines k)) \<ge> height k * width k"
  shows "possible_moves k \<noteq> []"
proof
  assume "possible_moves k = []"
  have sub: "{0..height k - 1} \<times> {0..width k - 1} \<subseteq> moves_made k \<union> mines k"
  proof
    fix c assume c: "c \<in> {0..height k - 1} \<times> {0..width k - 1}"
    show "c \<in> moves_made k \<union> mines k"
    proof (rule ccontr)
      assume "c \<notin> moves_made k \<union> mines k"
      with c have "c \<in> set (possible_moves k)"
        unfolding set_possible_moves by auto
      with \<open>possible_moves k = []\<close> show False by simp
    qed
  qed
  have cardA: "card ({0..height k - 1} \<times> {0..width k - 1}) = nat (height k) * nat (width k)"
    using dims by (simp add: card_cartesian_product)
  have le: "card ({0..height k - 1} \<times> {0..width k - 1}) \<le> card (moves_made k \<union> mines k)"
    by (rule card_mono) (use fin sub in simp_all)
  have "height k * width k = int (nat (height k) * nat (width k))"
    using dims by simp
  also have "\<dots> = int (card ({0..height k - 1} \<times> {0..width k - 1}))"
    by (simp only: cardA)
  also have "\<dots> \<le> int (card (moves_made k \<union> mines k))"
    using le by (simp only: of_nat_le_iff)
  also have "\<dots> \<le> int (card (moves_made k)) + int (card (mines k))"
    using card_Un_le [of "moves_made k" "mines k"] by linarith
  finally show False using check by simp
qed

subsection \<open>Soundness for a mine layout\<close>

lemma sound_init: "sound M (init_ai h w)"
  by (simp add: sound_def init_ai_def)

lemma sentence_sound_mark_mine:
  assumes "c \<in> M" and "sentence_sound M s"
  shows "sentence_sound M (fst (Sentence_mark_mine c s))"
proof (cases "c \<in> cells s")
  case True
  from assms(2) have fin: "finite (cells s)" and cnt: "count s = int (card (cells s \<inter> M))"
    by (simp_all add: sentence_sound_def)
  have eq: "(cells s - {c}) \<inter> M = (cells s \<inter> M) - {c}" by blast
  from True assms(1) have mem: "c \<in> cells s \<inter> M" by simp
  from fin have "finite (cells s \<inter> M)" by simp
  from this mem have "card (cells s \<inter> M) = Suc (card ((cells s \<inter> M) - {c}))"
    by (rule card.remove)
  with cnt have "count s - 1 = int (card ((cells s - {c}) \<inter> M))"
    by (simp add: eq)
  with True fin show ?thesis
    by (simp add: Sentence_mark_mine_def sentence_sound_def)
next
  case False
  with assms(2) show ?thesis by (simp add: Sentence_mark_mine_def)
qed

lemma sentence_sound_mark_safe:
  assumes "c \<notin> M" and "sentence_sound M s"
  shows "sentence_sound M (fst (Sentence_mark_safe c s))"
proof (cases "c \<in> cells s")
  case True
  from assms(1) have eq: "(cells s - {c}) \<inter> M = cells s \<inter> M" by blast
  from True assms(2) show ?thesis
    by (simp add: Sentence_mark_safe_def sentence_sound_def eq)
next
  case False
  with assms(2) show ?thesis by (simp add: Sentence_mark_safe_def)
qed

lemma sound_mark_mine: "c \<in> M \<Longrightarrow> sound M k \<Longrightarrow> sound M (mark_mine c k)"
  by (simp add: sound_def mark_mine_def list_all_iff sentence_sound_mark_mine)

lemma sound_mark_safe: "c \<notin> M \<Longrightarrow> sound M k \<Longrightarrow> sound M (mark_safe c k)"
  by (simp add: sound_def mark_safe_def list_all_iff sentence_sound_mark_safe)

lemma sound_fold_mark_mine: "set xs \<subseteq> M \<Longrightarrow> sound M k \<Longrightarrow> sound M (fold mark_mine xs k)"
  by (induction xs arbitrary: k) (simp_all add: sound_mark_mine)

lemma sound_fold_mark_safe:
  "set xs \<inter> M = {} \<Longrightarrow> sound M k \<Longrightarrow> sound M (fold mark_safe xs k)"
  by (induction xs arbitrary: k) (simp_all add: sound_mark_safe)

lemma known_mines_sound:
  assumes "sentence_sound M s"
  shows "known_mines s \<subseteq> M"
proof (cases "int (card (cells s)) = count s \<and> count s > 0")
  case True
  from assms have fin: "finite (cells s)" and cnt: "count s = int (card (cells s \<inter> M))"
    by (simp_all add: sentence_sound_def)
  from True cnt have "card (cells s \<inter> M) = card (cells s)" by simp
  with fin have "cells s \<inter> M = cells s"
    by (intro card_subset_eq) simp_all
  then have "cells s \<subseteq> M" by blast
  with True show ?thesis by (simp add: known_mines_def)
next
  case False
  then show ?thesis by (auto simp: known_mines_def)
qed

lemma known_safes_sound:
  assumes "sentence_sound M s"
  shows "known_safes s \<inter> M = {}"
proof (cases "count s = 0")
  case True
  from assms have fin: "finite (cells s)" and cnt: "count s = int (card (cells s \<inter> M))"
    by (simp_all add: sentence_sound_def)
  from True cnt fin have "cells s \<inter> M = {}" by simp
  with True show ?thesis by (simp add: known_safes_def)
next
  case False
  then show ?thesis by (simp add: known_safes_def)
qed

lemma sound_scan_sentence:
  assumes s: "sentence_sound M s" and k: "sound M (fst kc)"
  shows "sound M (fst (scan_sentence s kc))"
proof -
  from s have fin: "finite (cells s)" by (simp add: sentence_sound_def)
  let ?k1 = "if known_mines s \<noteq> {} then mark_mines (known_mines s) (fst kc) else fst kc"
  let ?k2 = "if known_safes s \<noteq> {} then mark_safes (known_safes s) ?k1 else ?k1"
  from finite_known [OF fin] known_mines_sound [OF s]
  have "set (sorted_list_of_set (known_mines s)) \<subseteq> M" by simp
  from sound_fold_mark_mine [OF this k] k have k1: "sound M ?k1"
    by (simp add: mark_mines_def)
  from finite_known [OF fin] known_safes_sound [OF s]
  have "set (sorted_list_of_set (known_safes s)) \<inter> M = {}" by simp
  from sound_fold_mark_safe [OF this k1] k1 have "sound M ?k2"
    by (simp add: mark_safes_def)
  moreover have "fst (scan_sentence s kc) = ?k2"
    by (simp add: scan_sentence_def Let_def)
  ultimately show ?thesis by simp
qed

lemma sound_fold_scan:
  "list_all (sentence_sound M) ss \<Longrightarrow> sound M (fst kc) \<Longrightarrow>
   sound M (fst (fold scan_sentence ss kc))"
  by (induction ss arbitrary: kc) (simp_all add: sound_scan_sentence)

lemma sound_scan: "sound M k \<Longrightarrow> sound M (fst (scan k))"
  using sound_fold_scan [of M "knowledge k" "(k, False)"]
  by (simp add: scan_def sound_def)

lemma sound_propagate: "propagate k = Some k' \<Longrightarrow> sound M k \<Longrightarrow> sound M k'"
  by (rule propagate_preserves [where Q = "sound M"]) (simp_all add: sound_scan)

lemma sound_record_move: "c \<notin> M \<Longrightarrow> sound M k \<Longrightarrow> sound M (record_move c k)"
proof -
  assume c: "c \<notin> M" and k: "sound M k"
  from k have "sound M (k\<lparr>moves_made := insert c (moves_made k)\<rparr>)"
    by (simp add: sound_def)
  from sound_mark_safe [OF c this] show ?thesis by (simp add: record_move_def)
qed

lemma sentence_sound_inference:
  assumes sub: "cells s1 \<subseteq> cells s2" and s1: "sentence_sound M s1" and s2: "sentence_sound M s2"
  shows "sentence_sound M (Sentence (cells s2 - cells s1) (count s2 - count s1))"
proof -
  from s1 s2 have f1: "finite (cells s1)" and f2: "finite (cells s2)"
    and c1: "count s1 = int (card (cells s1 \<inter> M))" and c2: "count s2 = int (card (cells s2 \<inter> M))"
    by (simp_all add: sentence_sound_def)
  have eq: "(cells s2 - cells s1) \<inter> M = (cells s2 \<inter> M) - (cells s1 \<inter> M)" by blast
  from sub have sub': "cells s1 \<inter> M \<subseteq> cells s2 \<inter> M" by blast
  from f1 have "finite (cells s1 \<inter> M)" by simp
  from card_Diff_subset [OF this sub']
  have d: "card ((cells s2 \<inter> M) - (cells s1 \<inter> M)) = card (cells s2 \<inter> M) - card (cells s1 \<inter> M)" .
  from f2 sub' have "card (cells s1 \<inter> M) \<le> card (cells s2 \<inter> M)"
    by (intro card_mono) simp_all
  with d have "int (card ((cells s2 - cells s1) \<inter> M)) = count s2 - count s1"
    by (simp add: eq c1 c2)
  with f2 show ?thesis by (simp add: sentence_sound_def)
qed

lemma sound_new_inferences:
  assumes "list_all (sentence_sound M) kn" and "d \<in> set (new_inferences kn)"
  shows "sentence_sound M d"
proof -
  from assms(2) obtain i j where ij: "i < j" "j < length kn"
    and d: "d \<in> set (infer_pair kn (kn ! i) (kn ! j))"
    unfolding set_new_inferences by blast
  from ij have i: "i < length kn" by simp
  from assms(1) i ij(2) have si: "sentence_sound M (kn ! i)" and sj: "sentence_sound M (kn ! j)"
    by (simp_all add: list_all_length)
  from d have "(cells (kn ! i) \<subseteq> cells (kn ! j) \<and>
        d = Sentence (cells (kn ! j) - cells (kn ! i)) (count (kn ! j) - count (kn ! i))) \<or>
      (cells (kn ! j) \<subseteq> cells (kn ! i) \<and>
        d = Sentence (cells (kn ! i) - cells (kn ! j)) (count (kn ! i) - count (kn ! j)))"
    unfolding set_infer_pair by (simp split: if_splits)
  then show ?thesis
  proof (elim disjE conjE)
    assume "cells (kn ! i) \<subseteq> cells (kn ! j)"
      "d = Sentence (cells (kn ! j) - cells (kn ! i)) (count (kn ! j) - count (kn ! i))"
    with sentence_sound_inference [OF _ si sj] show ?thesis by simp
  next
    assume "cells (kn ! j) \<subseteq> cells (kn ! i)"
      "d = Sentence (cells (kn ! i) - cells (kn ! j)) (count (kn ! i) - count (kn ! j))"
    with sentence_sound_inference [OF _ sj si] show ?thesis by simp
  qed
qed

lemma sound_subset_elimination: "sound M k \<Longrightarrow> sound M (subset_elimination k)"
proof -
  assume k: "sound M k"
  then have stored: "list_all (sentence_sound M) (knowledge k)" by (simp add: sound_def)
  have "list_all (sentence_sound M) (new_inferences (knowledge k))"
    unfolding list_all_iff using sound_new_inferences [OF stored] by blast
  with k show ?thesis by (simp add: sound_def)
qed

subsection \<open>The count of the board and the sentence of an observation\<close>

lemma near_iff: "x \<in> {a - 1..a + 1} \<longleftrightarrow> x = a - 1 \<or> x = a \<or> x = a + 1" for a x :: int
  by auto

lemma mem_block:
  "(x, y) \<in> set (concat (map (\<lambda>dr. map (\<lambda>dc. (a + dr, b + dc)) [- 1, 0, 1]) [- 1, 0, 1])) \<longleftrightarrow>
     (x = a - 1 \<or> x = a \<or> x = a + 1) \<and> (y = b - 1 \<or> y = b \<or> y = b + 1)"
  for a b x y :: int
  by simp blast

lemma distinct_block:
  "distinct (concat (map (\<lambda>dr. map (\<lambda>dc. (a + dr, b + dc)) [- 1, 0, 1]) [- 1, 0, 1]))"
  for a b :: int
  by simp

lemma set_neighbor_cells:
  "set (neighbor_cells h w c) =
     {n. n \<noteq> c \<and> (0 \<le> fst n \<and> fst n < h) \<and> (0 \<le> snd n \<and> snd n < w) \<and>
         fst n \<in> {fst c - 1..fst c + 1} \<and> snd n \<in> {snd c - 1..snd c + 1}}"
proof (rule set_eqI)
  fix n :: cell
  obtain x y where n: "n = (x, y)" by (cases n)
  have "n \<in> set (neighbor_cells h w c) \<longleftrightarrow>
      (n \<noteq> c \<and> (0 \<le> fst n \<and> fst n < h) \<and> (0 \<le> snd n \<and> snd n < w)) \<and>
      (x, y) \<in> set (concat (map (\<lambda>dr. map (\<lambda>dc. (fst c + dr, snd c + dc)) [- 1, 0, 1]) [- 1, 0, 1]))"
    unfolding neighbor_cells_def set_filter n by blast
  also have "\<dots> \<longleftrightarrow> (n \<noteq> c \<and> (0 \<le> fst n \<and> fst n < h) \<and> (0 \<le> snd n \<and> snd n < w)) \<and>
      fst n \<in> {fst c - 1..fst c + 1} \<and> snd n \<in> {snd c - 1..snd c + 1}"
    unfolding mem_block near_iff n by simp
  finally show "n \<in> set (neighbor_cells h w c) \<longleftrightarrow>
      n \<in> {n. n \<noteq> c \<and> (0 \<le> fst n \<and> fst n < h) \<and> (0 \<le> snd n \<and> snd n < w) \<and>
         fst n \<in> {fst c - 1..fst c + 1} \<and> snd n \<in> {snd c - 1..snd c + 1}}"
    by simp
qed

lemma distinct_neighbor_cells: "distinct (neighbor_cells h w c)"
  unfolding neighbor_cells_def by (rule distinct_filter) (rule distinct_block)

lemma fold_count:
  "fold (\<lambda>n cnt. if n = c then cnt
                 else if inb n then (if mine n then cnt + 1 else cnt) else cnt) xs (a :: int) =
     a + int (length (filter (\<lambda>n. n \<noteq> c \<and> inb n \<and> mine n) xs))"
  by (induction xs arbitrary: a) simp_all

lemma nearby_mines_card:
  "nearby_mines g c =
     int (card (set (neighbor_cells (game_height g) (game_width g) c) \<inter> mine_layout g))"
proof -
  let ?block = "concat (map (\<lambda>i. map (\<lambda>j. (i, j)) [snd c - 1..snd c + 1]) [fst c - 1..fst c + 1])"
  let ?P = "\<lambda>n. n \<noteq> c \<and>
      ((0 \<le> fst n \<and> fst n < game_height g) \<and> (0 \<le> snd n \<and> snd n < game_width g)) \<and>
      board g ! nat (fst n) ! nat (snd n)"
  have "?block = List.product [fst c - 1..fst c + 1] [snd c - 1..snd c + 1]"
    by (simp only: product_concat_map)
  then have dist: "distinct ?block" by (simp only: distinct_product distinct_upto)
  have blk: "set ?block = {fst c - 1..fst c + 1} \<times> {snd c - 1..snd c + 1}"
    by (simp only: set_grid set_upto)
  have "nearby_mines g c = int (length (filter ?P ?block))"
    unfolding nearby_mines_def fold_count by simp
  also have "length (filter ?P ?block) = card ({x. ?P x} \<inter> set ?block)"
    using dist by (rule distinct_length_filter)
  also have "{x. ?P x} \<inter> set ?block =
      set (neighbor_cells (game_height g) (game_width g) c) \<inter> mine_layout g"
    unfolding blk set_neighbor_cells mine_layout_def by auto
  finally show ?thesis .
qed

lemma sentence_sound_new_sentence:
  assumes k: "sound M k" and M: "M = mine_layout g"
    and dims: "height k = game_height g" "width k = game_width g"
  shows "sentence_sound M (new_sentence_of c (nearby_mines g c) k)"
proof -
  let ?ns = "neighbor_cells (height k) (width k) c"
  let ?N = "set ?ns"
  from k have mines: "mines k \<subseteq> M" and safes: "safes k \<inter> M = {}"
    by (simp_all add: sound_def)
  have cells: "{x \<in> ?N. x \<notin> mines k \<and> x \<notin> safes k} \<inter> M = (?N \<inter> M) - (?N \<inter> mines k)"
    using safes by blast
  have sub: "?N \<inter> mines k \<subseteq> ?N \<inter> M" using mines by blast
  have "length (filter (\<lambda>x. x \<in> mines k) ?ns) = card ({x. x \<in> mines k} \<inter> ?N)"
    using distinct_neighbor_cells by (rule distinct_length_filter)
  also have "{x. x \<in> mines k} \<inter> ?N = ?N \<inter> mines k" by blast
  finally have len: "length (filter (\<lambda>x. x \<in> mines k) ?ns) = card (?N \<inter> mines k)" .
  have "finite (?N \<inter> mines k)" by simp
  from card_Diff_subset [OF this sub]
  have d: "card ((?N \<inter> M) - (?N \<inter> mines k)) = card (?N \<inter> M) - card (?N \<inter> mines k)" .
  have le: "card (?N \<inter> mines k) \<le> card (?N \<inter> M)"
    using sub by (intro card_mono) simp_all
  have "nearby_mines g c = int (card (?N \<inter> M))"
    by (simp only: nearby_mines_card M dims)
  with d le have "nearby_mines g c - int (card (?N \<inter> mines k)) =
      int (card ((?N \<inter> M) - (?N \<inter> mines k)))"
    by simp
  then show ?thesis
    by (simp add: sentence_sound_def new_sentence_of_eq len cells)
qed

lemma sound_add_new_sentence:
  assumes "sound M k" and "M = mine_layout g"
    and "height k = game_height g" "width k = game_width g"
  shows "sound M (add_new_sentence c (nearby_mines g c) k)"
proof -
  from sentence_sound_new_sentence [OF assms]
  have "sentence_sound M (new_sentence_of c (nearby_mines g c) k)" .
  with assms(1) show ?thesis
    by (simp add: sound_def knowledge_add_new_sentence)
qed

subsection \<open>Truthful calls keep the engine sound\<close>

lemma sound_add_knowledge:
  assumes k: "sound (mine_layout g) k" and dims: "height k = game_height g" "width k = game_width g"
    and c: "c \<notin> mine_layout g" and run: "add_knowledge c (nearby_mines g c) k = Some k'"
  shows "sound (mine_layout g) k'"
proof -
  from add_knowledge_stages [OF run] obtain k3
    where p: "propagate (add_new_sentence c (nearby_mines g c) (record_move c k)) = Some k3"
      and k': "k' = subset_elimination k3" by blast
  from dims have dims': "height (record_move c k) = game_height g"
    "width (record_move c k) = game_width g" by simp_all
  from sound_add_new_sentence [OF sound_record_move [OF c k] refl dims']
  have "sound (mine_layout g) (add_new_sentence c (nearby_mines g c) (record_move c k))" .
  from sound_propagate [OF p this] show ?thesis
    unfolding k' by (rule sound_subset_elimination)
qed

lemma sound_run_op:
  assumes "sound (mine_layout g) k" and "height k = game_height g" "width k = game_width g"
    and "truthful g x" and "run_op x k = Some k'"
  shows "sound (mine_layout g) k'"
proof (cases x)
  case (Mark_mine c)
  with assms show ?thesis by (auto simp: sound_mark_mine)
next
  case (Mark_safe c)
  with assms show ?thesis by (auto simp: sound_mark_safe)
next
  case (Add_knowledge c n)
  with assms(4,5) have "c \<notin> mine_layout g" "add_knowledge c (nearby_mines g c) k = Some k'"
    by simp_all
  from sound_add_knowledge [OF assms(1-3) this] show ?thesis .
next
  case (Make_safe_move order)
  with assms show ?thesis by simp
next
  case (Make_random_move rnd)
  with assms show ?thesis by (auto split: sum.splits)
qed

lemma sound_run_ops:
  "sound (mine_layout g) k \<Longrightarrow> height k = game_height g \<Longrightarrow> width k = game_width g \<Longrightarrow>
   list_all (truthful g) xs \<Longrightarrow> run_ops xs k = Some k' \<Longrightarrow> sound (mine_layout g) k'"
proof (induction xs arbitrary: k)
  case Nil
  then show ?case by simp
next
  case (Cons x xs)
  from Cons.prems(5) obtain k1 where k1: "run_op x k = Some k1" and rest: "run_ops xs k1 = Some k'"
    by (auto split: option.splits)
  from Cons.prems(4) have x: "truthful g x" and xs: "list_all (truthful g) xs" by simp_all
  from grows_run_op [OF k1] Cons.prems(2,3)
  have dims: "height k1 = game_height g" "width k1 = game_width g"
    by (simp_all add: grows_def)
  from sound_run_op [OF Cons.prems(1-3) x k1] have "sound (mine_layout g) k1" .
  from Cons.IH [OF this dims xs rest] show ?case .
qed

lemma sound_disjoint: "sound M k \<Longrightarrow> safes k \<inter> mines k = {}"
  by (auto simp: sound_def)

section \<open>The claims\<close>

text \<open>
  C1, as the claim states it, fails: \<^verbatim>\<open>mark_safe\<close> does not look at \<open>mines\<close> and
  \<^verbatim>\<open>mark_mine\<close> does not look at \<open>safes\<close>. On a fresh engine, marking \<open>(0,0)\<close> as a
  mine and then as safe leaves the cell in both sets, and so does marking it as a mine
  and then observing it.
\<close>

theorem safes_mines_overlap:
  "run_ops [Mark_mine (0, 0), Mark_safe (0, 0)] (init_ai 1 2) = Some engine_o \<and>
   safes engine_o \<inter> mines engine_o = {(0, 0)} \<and>
   run_ops [Mark_mine (0, 0), Add_knowledge (0, 0) 0] (init_ai 1 2) = Some engine_n \<and>
   safes engine_n \<inter> mines engine_n = {(0, 0)}"
proof -
  have "run_ops [Mark_mine (0, 0), Mark_safe (0, 0)] (init_ai 1 2) = Some engine_o"
    by code_simp
  moreover have "run_ops [Mark_mine (0, 0), Add_knowledge (0, 0) 0] (init_ai 1 2) = Some engine_n"
    by code_simp
  ultimately show ?thesis by (simp add: engine_o_def engine_n_def)
qed

text \<open>
  C1, amended. For every sequence of calls on a fresh engine that is truthful for a
  board of the engine's dimensions (\<^verbatim>\<open>mark_mine\<close> on cells that hold a mine,
  \<^verbatim>\<open>mark_safe\<close> on cells that hold none, \<^verbatim>\<open>add_knowledge\<close> on a cell that holds none,
  with the count \<^verbatim>\<open>nearby_mines\<close> gives for it), \<open>safes\<close> and \<open>mines\<close> are disjoint
  after every call: every cell of \<open>mines\<close> holds a mine and no cell of \<open>safes\<close> does.
\<close>

theorem safes_mines_disjoint_truthful:
  "list_all (truthful g) xs \<Longrightarrow>
   run_ops (take i xs) (init_ai (game_height g) (game_width g)) = Some k \<Longrightarrow>
   safes k \<inter> mines k = {} \<and> mines k \<subseteq> mine_layout g \<and> safes k \<inter> mine_layout g = {}"
proof -
  assume all: "list_all (truthful g) xs"
    and run: "run_ops (take i xs) (init_ai (game_height g) (game_width g)) = Some k"
  from all have "list_all (truthful g) (take i xs)"
    unfolding list_all_iff using set_take_subset [of i xs] by blast
  from sound_run_ops [OF sound_init _ _ this run]
  have s: "sound (mine_layout g) k" by (simp add: init_ai_def)
  from sound_disjoint [OF s] s show ?thesis by (simp add: sound_def)
qed

theorem safes_mines_disjoint_truthful_witness:
  "list_all (truthful game_a)
     [Add_knowledge (0, 0) 1, Add_knowledge (0, 1) 2, Add_knowledge (0, 2) 1, Mark_mine (1, 0)] \<and>
   run_ops (take 3
       [Add_knowledge (0, 0) 1, Add_knowledge (0, 1) 2, Add_knowledge (0, 2) 1, Mark_mine (1, 0)])
     (init_ai (game_height game_a) (game_width game_a)) = Some engine_b \<and>
   safes engine_b \<inter> mines engine_b = {}"
proof -
  have n1: "nearby_mines game_a (0, 0) = 1" by code_simp
  have n2: "nearby_mines game_a (0, 1) = 2" by code_simp
  have n3: "nearby_mines game_a (0, 2) = 1" by code_simp
  have h1: "list_all (truthful game_a)
     [Add_knowledge (0, 0) 1, Add_knowledge (0, 1) 2, Add_knowledge (0, 2) 1, Mark_mine (1, 0)]"
    by (simp add: n1 n2 n3) (simp add: mine_layout_def game_a_def)
  have h2: "run_ops (take 3
       [Add_knowledge (0, 0) 1, Add_knowledge (0, 1) 2, Add_knowledge (0, 2) 1, Mark_mine (1, 0)])
     (init_ai (game_height game_a) (game_width game_a)) = Some engine_b"
    by code_simp
  from safes_mines_disjoint_truthful [OF h1 h2] h1 h2 show ?thesis by blast
qed

text \<open>
  C2. For every sentence, \<^verbatim>\<open>known_mines()\<close> returns the cells when the number of cells
  equals the count and the count is positive, and the empty set otherwise;
  \<^verbatim>\<open>known_safes()\<close> returns the cells when the count is zero, and the empty set
  otherwise. For a sentence with at least one cell the conditions are also necessary:
  the cells come back exactly when the condition holds. (For a sentence with no cell both
  branches return the empty set.)
\<close>

theorem known_mines_known_safes_spec:
  "known_mines s = (if int (card (cells s)) = count s \<and> count s > 0 then cells s else {}) \<and>
   known_safes s = (if count s = 0 then cells s else {}) \<and>
   (cells s \<noteq> {} \<longrightarrow>
      (known_mines s = cells s \<longleftrightarrow> int (card (cells s)) = count s \<and> count s > 0) \<and>
      (known_safes s = cells s \<longleftrightarrow> count s = 0))"
  by (auto simp: known_mines_def known_safes_def)

theorem known_mines_known_safes_witness:
  "cells (Sentence {(0::int, 1::int), (1, 1)} 2) \<noteq> {} \<and>
   known_mines (Sentence {(0::int, 1::int), (1, 1)} 2) = {(0, 1), (1, 1)} \<and>
   known_safes (Sentence {(0::int, 1::int), (1, 1)} 2) = {} \<and>
   known_safes (Sentence {(0::int, 1::int), (1, 1)} 0) = {(0, 1), (1, 1)} \<and>
   known_mines (Sentence {(0::int, 1::int), (1, 1)} 1) = {}"
  using known_mines_known_safes_spec [of "Sentence {(0::int, 1::int), (1, 1)} 2"]
    known_mines_known_safes_spec [of "Sentence {(0::int, 1::int), (1, 1)} 0"]
    known_mines_known_safes_spec [of "Sentence {(0::int, 1::int), (1, 1)} 1"]
  by simp

text \<open>
  C3. Subset elimination runs once in each \<^verbatim>\<open>add_knowledge\<close> call, on the knowledge the
  propagation loop leaves: for every pair of positions \<open>i < j\<close> of stored sentences where
  the cells of one are a subset of the cells of the other, the sentence with the
  difference of the cells and the difference of the counts is derived; derivations with
  no cell or equal to a stored sentence are dropped, and the others are appended. From
  \<open>{1,2,3} = 1\<close> and \<open>{1,2,3,4} = 2\<close> the derivation is \<open>{4} = 1\<close>.
\<close>

theorem subset_elimination_spec:
  "(list_all (\<lambda>s. finite (cells s)) kn \<longrightarrow>
      set (new_inferences kn) =
        {d. \<exists>i j. i < j \<and> j < length kn \<and>
              (cells (kn ! i) \<subseteq> cells (kn ! j) \<and>
                 d = Sentence (cells (kn ! j) - cells (kn ! i)) (count (kn ! j) - count (kn ! i)) \<or>
               cells (kn ! j) \<subseteq> cells (kn ! i) \<and>
                 d = Sentence (cells (kn ! i) - cells (kn ! j)) (count (kn ! i) - count (kn ! j))) \<and>
              cells d \<noteq> {} \<and> d \<notin> set kn}) \<and>
   (add_knowledge c n k = Some k' \<longrightarrow>
      (\<exists>k3. propagate (add_new_sentence c n (record_move c k)) = Some k3 \<and>
            knowledge k' = knowledge k3 @ new_inferences (knowledge k3))) \<and>
   new_inferences [Sentence {1, 2, 3 :: int} 1, Sentence {1, 2, 3, 4} 2] = [Sentence {4} 1]"
proof (intro conjI impI)
  assume "list_all (\<lambda>s. finite (cells s)) kn"
  then show "set (new_inferences kn) =
        {d. \<exists>i j. i < j \<and> j < length kn \<and>
              (cells (kn ! i) \<subseteq> cells (kn ! j) \<and>
                 d = Sentence (cells (kn ! j) - cells (kn ! i)) (count (kn ! j) - count (kn ! i)) \<or>
               cells (kn ! j) \<subseteq> cells (kn ! i) \<and>
                 d = Sentence (cells (kn ! i) - cells (kn ! j)) (count (kn ! i) - count (kn ! j))) \<and>
              cells d \<noteq> {} \<and> d \<notin> set kn}"
    by (rule set_new_inferences_finite)
next
  assume "add_knowledge c n k = Some k'"
  from add_knowledge_stages [OF this]
  show "\<exists>k3. propagate (add_new_sentence c n (record_move c k)) = Some k3 \<and>
            knowledge k' = knowledge k3 @ new_inferences (knowledge k3)"
    by auto
next
  show "new_inferences [Sentence {1, 2, 3 :: int} 1, Sentence {1, 2, 3, 4} 2] = [Sentence {4} 1]"
    by code_simp
qed

theorem subset_elimination_witness:
  "list_all (\<lambda>s. finite (cells s))
     [Sentence {(1::int, 0::int), (1, 1)} 1, Sentence {(0, 2), (1, 0), (1, 1), (1, 2)} 2] \<and>
   add_knowledge (0, 1) 2
     \<lparr>height = 2, width = 3, moves_made = {(0, 0)}, mines = {}, safes = {(0, 0)},
        knowledge = [Sentence {(0, 1), (1, 0), (1, 1)} 1]\<rparr> =
   Some \<lparr>height = 2, width = 3, moves_made = {(0, 0), (0, 1)}, mines = {},
          safes = {(0, 0), (0, 1)},
          knowledge = [Sentence {(1, 0), (1, 1)} 1, Sentence {(0, 2), (1, 0), (1, 1), (1, 2)} 2,
                       Sentence {(0, 2), (1, 2)} 1]\<rparr> \<and>
   (\<exists>k3. propagate (add_new_sentence (0, 1) 2 (record_move (0, 1)
            \<lparr>height = 2, width = 3, moves_made = {(0, 0)}, mines = {}, safes = {(0, 0)},
               knowledge = [Sentence {(0, 1), (1, 0), (1, 1)} 1]\<rparr>)) = Some k3 \<and>
         [Sentence {(1, 0), (1, 1)} 1, Sentence {(0, 2), (1, 0), (1, 1), (1, 2)} 2,
          Sentence {(0, 2), (1, 2)} 1] = knowledge k3 @ new_inferences (knowledge k3))"
proof -
  let ?kn = "[Sentence {(1::int, 0::int), (1, 1)} 1, Sentence {(0, 2), (1, 0), (1, 1), (1, 2)} 2]"
  let ?k = "\<lparr>height = 2, width = 3, moves_made = {(0, 0)}, mines = {}, safes = {(0, 0)},
        knowledge = [Sentence {(0, 1), (1, 0), (1, 1)} 1]\<rparr>"
  let ?k' = "\<lparr>height = 2, width = 3, moves_made = {(0, 0), (0, 1)}, mines = {},
          safes = {(0, 0), (0, 1)},
          knowledge = [Sentence {(1, 0), (1, 1)} 1, Sentence {(0, 2), (1, 0), (1, 1), (1, 2)} 2,
                       Sentence {(0, 2), (1, 2)} 1]\<rparr>"
  have h1: "list_all (\<lambda>s. finite (cells s)) ?kn" by simp
  have h2: "add_knowledge (0, 1) 2 ?k = Some ?k'" by code_simp
  from subset_elimination_spec [of ?kn "(0, 1)" 2 ?k ?k'] h2
  have "\<exists>k3. propagate (add_new_sentence (0, 1) 2 (record_move (0, 1) ?k)) = Some k3 \<and>
            knowledge ?k' = knowledge k3 @ new_inferences (knowledge k3)"
    by blast
  with h1 h2 show ?thesis by simp
qed

text \<open>
  C4, as the claim states it, fails: on a board of one row and two columns the
  observation of \<open>(0,0)\<close> with count 0 stores the sentence \<open>{(0,1)} = 0\<close>, the propagation
  loop marks \<open>(0,1)\<close> safe, and the call returns with the sentence \<open>{} = 0\<close> stored.
\<close>

theorem empty_sentence_stays_stored:
  "add_knowledge (0, 0) 0 (init_ai 1 2) = Some engine_c \<and>
   knowledge engine_c = [Sentence {} 0] \<and>
   cells (knowledge engine_c ! 0) = {}"
proof -
  have "add_knowledge (0, 0) 0 (init_ai 1 2) = Some engine_c" by code_simp
  then show ?thesis by (simp add: engine_c_def)
qed

text \<open>
  C4, amended. Every sentence that an \<^verbatim>\<open>add_knowledge\<close> call appends has a cell when
  it is appended: the sentence of the observation is appended only if it has a cell, and
  every sentence that subset elimination derives has one. No call removes a stored
  sentence: the propagation loop keeps their number, and the call returns the knowledge
  the loop left followed by the derived sentences, so a sentence whose cells have all
  been marked stays stored with no cell.
\<close>

theorem appended_sentences_nonempty:
  "add_knowledge c n k = Some k' \<Longrightarrow>
   \<exists>k3. knowledge (add_new_sentence c n (record_move c k)) =
          knowledge (record_move c k) @
            (if cells (new_sentence_of c n (record_move c k)) \<noteq> {}
             then [new_sentence_of c n (record_move c k)] else []) \<and>
        length (knowledge (record_move c k)) = length (knowledge k) \<and>
        propagate (add_new_sentence c n (record_move c k)) = Some k3 \<and>
        length (knowledge k3) = length (knowledge (add_new_sentence c n (record_move c k))) \<and>
        knowledge k' = knowledge k3 @ new_inferences (knowledge k3) \<and>
        list_all (\<lambda>d. cells d \<noteq> {}) (new_inferences (knowledge k3)) \<and>
        length (knowledge k) \<le> length (knowledge k')"
proof -
  assume ak: "add_knowledge c n k = Some k'"
  from add_knowledge_stages [OF ak] obtain k3
    where run: "propagate (add_new_sentence c n (record_move c k)) = Some k3"
      and k': "k' = subset_elimination k3" by blast
  from marks_only_propagate [OF run]
  have len: "length (knowledge k3) = length (knowledge (add_new_sentence c n (record_move c k)))"
    by (simp add: marks_only_def)
  have ne: "list_all (\<lambda>d. cells d \<noteq> {}) (new_inferences (knowledge k3))"
    by (simp add: list_all_iff new_inferences_nonempty)
  from grows_add_knowledge [OF ak] have "length (knowledge k) \<le> length (knowledge k')"
    by (simp add: grows_def)
  with run len ne k' show ?thesis
    by (auto simp: knowledge_add_new_sentence)
qed

theorem appended_sentences_nonempty_witness:
  "add_knowledge (0, 0) 0 (init_ai 1 2) = Some engine_c \<and>
   (\<exists>k3. propagate (add_new_sentence (0, 0) 0 (record_move (0, 0) (init_ai 1 2))) = Some k3 \<and>
         knowledge engine_c = knowledge k3 @ new_inferences (knowledge k3) \<and>
         list_all (\<lambda>d. cells d \<noteq> {}) (new_inferences (knowledge k3))) \<and>
   length (knowledge (init_ai 1 2)) \<le> length (knowledge engine_c)"
proof -
  have h: "add_knowledge (0, 0) 0 (init_ai 1 2) = Some engine_c" by code_simp
  from appended_sentences_nonempty [OF h] h show ?thesis by blast
qed

text \<open>
  C5, as the claim states it, fails. On a board of one row and five columns the
  observations of \<open>(0,0)\<close> and of \<open>(0,4)\<close>, each with count 0, leave the sentence \<open>{} = 0\<close>
  stored twice: each observation stored a sentence of its own, and the marks emptied
  both. On a board of two rows and two columns the observations of \<open>(0,0)\<close> and of
  \<open>(0,1)\<close>, each with count 1, leave \<open>{(1,0),(1,1)} = 1\<close> stored twice: the second
  observation shrinks the stored sentence to it and then appends its own.
\<close>

theorem duplicate_sentences_stored:
  "run_ops [Add_knowledge (0, 0) 0, Add_knowledge (0, 4) 0] (init_ai 1 5) = Some engine_e \<and>
   knowledge engine_e = [Sentence {} 0, Sentence {} 0] \<and>
   \<not> distinct (knowledge engine_e) \<and>
   run_ops [Add_knowledge (0, 0) 1, Add_knowledge (0, 1) 1] (init_ai 2 2) = Some engine_d \<and>
   knowledge engine_d = [Sentence {(1, 0), (1, 1)} 1, Sentence {(1, 0), (1, 1)} 1] \<and>
   \<not> distinct (knowledge engine_d)"
proof -
  have "run_ops [Add_knowledge (0, 0) 0, Add_knowledge (0, 4) 0] (init_ai 1 5) = Some engine_e"
    by code_simp
  moreover have "run_ops [Add_knowledge (0, 0) 1, Add_knowledge (0, 1) 1] (init_ai 2 2) = Some engine_d"
    by code_simp
  ultimately show ?thesis by (simp add: engine_e_def engine_d_def)
qed

text \<open>
  C5, amended. Subset elimination appends no duplicate of a stored sentence: no sentence
  that an \<^verbatim>\<open>add_knowledge\<close> call derives and appends is equal to a sentence that is
  stored when the elimination runs. So a derivation that an earlier call has stored is
  not stored again by a later call.
\<close>

theorem derived_sentences_fresh:
  "add_knowledge c n k = Some k' \<Longrightarrow>
   \<exists>k3. propagate (add_new_sentence c n (record_move c k)) = Some k3 \<and>
        knowledge k' = knowledge k3 @ new_inferences (knowledge k3) \<and>
        list_all (\<lambda>d. d \<notin> set (knowledge k3)) (new_inferences (knowledge k3))"
proof -
  assume "add_knowledge c n k = Some k'"
  from add_knowledge_stages [OF this] obtain k3
    where run: "propagate (add_new_sentence c n (record_move c k)) = Some k3"
      and k': "k' = subset_elimination k3" by blast
  have "list_all (\<lambda>d. d \<notin> set (knowledge k3)) (new_inferences (knowledge k3))"
    by (simp add: list_all_iff new_inferences_fresh)
  with run k' show ?thesis by simp
qed

theorem derived_sentences_fresh_witness:
  "add_knowledge (0, 1) 2 engine_a =
     Some \<lparr>height = 2, width = 3, moves_made = {(0, 0), (0, 1)}, mines = {},
            safes = {(0, 0), (0, 1)},
            knowledge = [Sentence {(1, 0), (1, 1)} 1, Sentence {(0, 2), (1, 0), (1, 1), (1, 2)} 2,
                         Sentence {(0, 2), (1, 2)} 1]\<rparr> \<and>
   (\<exists>k3. propagate (add_new_sentence (0, 1) 2 (record_move (0, 1) engine_a)) = Some k3 \<and>
         list_all (\<lambda>d. d \<notin> set (knowledge k3)) (new_inferences (knowledge k3)))"
proof -
  have h: "add_knowledge (0, 1) 2 engine_a =
     Some \<lparr>height = 2, width = 3, moves_made = {(0, 0), (0, 1)}, mines = {},
            safes = {(0, 0), (0, 1)},
            knowledge = [Sentence {(1, 0), (1, 1)} 1, Sentence {(0, 2), (1, 0), (1, 1), (1, 2)} 2,
                         Sentence {(0, 2), (1, 2)} 1]\<rparr>"
    by code_simp
  from derived_sentences_fresh [OF h] h show ?thesis by blast
qed

text \<open>
  C6. In every \<^verbatim>\<open>add_knowledge\<close> call on an engine that a sequence of calls has built
  from a fresh one, the propagation loop returns: after finitely many scans that each
  mark cells, a scan is reached in which no sentence yields known mines or known safes,
  and the loop exits with the object of that scan. Every sequence of calls returns, so
  such engines exist for every sequence. More generally the loop returns on every engine
  with finite sets whose stored sentences name no cell of \<open>mines\<close> or \<open>safes\<close>
  (\<open>kb_inv\<close>), which every engine built by calls is.
\<close>

theorem propagation_terminates:
  "(\<exists>k. run_ops xs (init_ai h w) = Some k) \<and>
   (kb_inv k0 \<longrightarrow> (\<exists>k3. propagate k0 = Some k3 \<and> scan k3 = (k3, False))) \<and>
   (run_ops xs (init_ai h w) = Some k \<longrightarrow>
      (\<exists>n k3. propagate (add_new_sentence c cnt (record_move c k)) = Some k3 \<and>
         k3 = (scan_once ^^ n) (add_new_sentence c cnt (record_move c k)) \<and>
         (\<forall>m<n. snd (scan ((scan_once ^^ m) (add_new_sentence c cnt (record_move c k))))) \<and>
         scan k3 = (k3, False) \<and>
         list_all (\<lambda>s. known_mines s = {} \<and> known_safes s = {}) (knowledge k3)))"
proof (intro conjI impI)
  from run_ops_returns [OF kb_inv_init, of xs h w]
  show "\<exists>k. run_ops xs (init_ai h w) = Some k" by blast
next
  assume "kb_inv k0"
  from propagate_terminates [OF this]
  show "\<exists>k3. propagate k0 = Some k3 \<and> scan k3 = (k3, False)" by blast
next
  let ?k2 = "add_new_sentence c cnt (record_move c k)"
  assume "run_ops xs (init_ai h w) = Some k"
  then have "kb_inv k" by (rule kb_inv_run_ops)
  then have "kb_inv ?k2"
    by (intro kb_inv_add_new_sentence kb_inv_record_move)
  from propagate_scans [OF this] obtain n
    where run: "propagate ?k2 = Some ((scan_once ^^ n) ?k2)"
      and stop: "\<not> snd (scan ((scan_once ^^ n) ?k2))"
      and before: "\<forall>m<n. snd (scan ((scan_once ^^ m) ?k2))"
    by blast
  from stop have fx: "scan ((scan_once ^^ n) ?k2) = ((scan_once ^^ n) ?k2, False)"
    by (rule scan_no_change)
  then have "list_all (\<lambda>s. known_mines s = {} \<and> known_safes s = {})
      (knowledge ((scan_once ^^ n) ?k2))"
    by (simp only: scan_fixpoint)
  with run before fx
  show "\<exists>n k3. propagate ?k2 = Some k3 \<and> k3 = (scan_once ^^ n) ?k2 \<and>
         (\<forall>m<n. snd (scan ((scan_once ^^ m) ?k2))) \<and>
         scan k3 = (k3, False) \<and>
         list_all (\<lambda>s. known_mines s = {} \<and> known_safes s = {}) (knowledge k3)"
    by blast
qed

theorem propagation_terminates_witness:
  "run_ops [Add_knowledge (0, 0) 1] (init_ai 2 3) = Some engine_a \<and>
   kb_inv engine_a \<and>
   (\<exists>k3. propagate engine_a = Some k3 \<and> scan k3 = (k3, False)) \<and>
   (\<exists>k3. propagate (add_new_sentence (0, 1) 2 (record_move (0, 1) engine_a)) = Some k3 \<and>
         scan k3 = (k3, False))"
proof -
  have h: "run_ops [Add_knowledge (0, 0) 1] (init_ai 2 3) = Some engine_a" by code_simp
  have i: "kb_inv engine_a" by (simp add: kb_inv_def engine_a_def)
  note t = propagation_terminates [of "[Add_knowledge (0, 0) 1]" 2 3 engine_a engine_a "(0, 1)" 2]
  from t i have "\<exists>k3. propagate engine_a = Some k3 \<and> scan k3 = (k3, False)"
    by blast
  moreover from t h
  have "\<exists>k3. propagate (add_new_sentence (0, 1) 2 (record_move (0, 1) engine_a)) = Some k3 \<and>
         scan k3 = (k3, False)"
    by blast
  ultimately show ?thesis using h i by blast
qed

text \<open>
  C7, as the claim states it, fails in its second part. An engine built with height
  \<open>-1\<close> and width \<open>-1\<close> passes the count check (\<open>0 + 0 < 1\<close>), its board has no cell, and
  \<^verbatim>\<open>make_random_move\<close> returns \<^verbatim>\<open>None\<close>: nothing is raised.
\<close>

theorem random_move_silent_none:
  "int (card (moves_made (init_ai (- 1) (- 1)))) + int (card (mines (init_ai (- 1) (- 1))))
     < height (init_ai (- 1) (- 1)) * width (init_ai (- 1) (- 1)) \<and>
   possible_moves (init_ai (- 1) (- 1)) = [] \<and>
   make_random_move 0 (init_ai (- 1) (- 1)) = Inr None"
  by (simp add: init_ai_def possible_moves_def range_int_def make_random_move_def)

text \<open>
  C7, amended. \<^verbatim>\<open>make_random_move\<close> returns \<^verbatim>\<open>None\<close> when
  \<open>|moves_made| + |mines|\<close> is at least the number of cells; when that check passes and
  no cell outside \<open>moves_made\<close> and \<open>mines\<close> exists on the board it returns \<^verbatim>\<open>None\<close> as
  well, and it never raises; when the check passes and such a cell exists, it returns
  one of them. With non-negative height and width and finite sets, a passed check
  implies that such a cell exists.
\<close>

theorem random_move_spec:
  "(int (card (moves_made k)) + int (card (mines k)) \<ge> height k * width k \<longrightarrow>
      make_random_move rnd k = Inr None) \<and>
   (possible_moves k = [] \<longrightarrow> make_random_move rnd k = Inr None) \<and>
   make_random_move rnd k \<noteq> Inl e \<and>
   (\<not> int (card (moves_made k)) + int (card (mines k)) \<ge> height k * width k \<and>
    possible_moves k \<noteq> [] \<longrightarrow>
      (\<exists>c. make_random_move rnd k = Inr (Some c) \<and>
           (0 \<le> fst c \<and> fst c < height k) \<and> (0 \<le> snd c \<and> snd c < width k) \<and>
           c \<notin> moves_made k \<and> c \<notin> mines k)) \<and>
   (0 \<le> height k \<and> 0 \<le> width k \<and> finite (moves_made k) \<and> finite (mines k) \<and>
    \<not> int (card (moves_made k)) + int (card (mines k)) \<ge> height k * width k \<longrightarrow>
      possible_moves k \<noteq> [])"
proof -
  have "\<exists>c. make_random_move rnd k = Inr (Some c) \<and>
           (0 \<le> fst c \<and> fst c < height k) \<and> (0 \<le> snd c \<and> snd c < width k) \<and>
           c \<notin> moves_made k \<and> c \<notin> mines k"
    if "\<not> int (card (moves_made k)) + int (card (mines k)) \<ge> height k * width k"
      and "possible_moves k \<noteq> []"
  proof -
    from make_random_move_candidate [OF that] obtain c
      where c: "c \<in> set (possible_moves k)" and r: "make_random_move rnd k = Inr (Some c)"
      by blast
    from c have "(0 \<le> fst c \<and> fst c < height k) \<and> (0 \<le> snd c \<and> snd c < width k) \<and>
           c \<notin> moves_made k \<and> c \<notin> mines k"
      unfolding set_possible_moves by simp
    with r show ?thesis by blast
  qed
  note cand = this
  show ?thesis
  proof (intro conjI impI)
    assume "height k * width k \<le> int (card (moves_made k)) + int (card (mines k))"
    then show "make_random_move rnd k = Inr None" by (rule make_random_move_done)
  next
    assume "possible_moves k = []"
    then show "make_random_move rnd k = Inr None" by (rule make_random_move_no_candidate)
  next
    show "make_random_move rnd k \<noteq> Inl e" by (rule make_random_move_no_error)
  next
    assume "\<not> height k * width k \<le> int (card (moves_made k)) + int (card (mines k)) \<and>
      possible_moves k \<noteq> []"
    then show "\<exists>c. make_random_move rnd k = Inr (Some c) \<and>
           (0 \<le> fst c \<and> fst c < height k) \<and> (0 \<le> snd c \<and> snd c < width k) \<and>
           c \<notin> moves_made k \<and> c \<notin> mines k"
      using cand by (elim conjE)
  next
    assume "0 \<le> height k \<and> 0 \<le> width k \<and> finite (moves_made k) \<and> finite (mines k) \<and>
      \<not> height k * width k \<le> int (card (moves_made k)) + int (card (mines k))"
    then show "possible_moves k \<noteq> []"
      by (elim conjE) (rule candidate_exists)
  qed
qed

theorem random_move_spec_witness:
  "int (card (moves_made engine_n)) + int (card (mines engine_n))
     \<ge> height engine_n * width engine_n \<and>
   make_random_move 0 engine_n = Inr None \<and>
   possible_moves (init_ai (- 1) (- 1)) = [] \<and>
   make_random_move 0 (init_ai (- 1) (- 1)) = Inr None \<and>
   (0 \<le> height engine_a \<and> 0 \<le> width engine_a \<and> finite (moves_made engine_a) \<and>
    finite (mines engine_a) \<and>
    \<not> int (card (moves_made engine_a)) + int (card (mines engine_a))
        \<ge> height engine_a * width engine_a) \<and>
   possible_moves engine_a \<noteq> [] \<and>
   (\<exists>c. make_random_move 7 engine_a = Inr (Some c) \<and> c \<notin> moves_made engine_a \<and>
        c \<notin> mines engine_a)"
proof -
  have h1: "int (card (moves_made engine_n)) + int (card (mines engine_n))
     \<ge> height engine_n * width engine_n"
    by (simp add: engine_n_def)
  have h2: "possible_moves (init_ai (- 1) (- 1)) = []"
    by (simp add: init_ai_def possible_moves_def range_int_def)
  have h3: "0 \<le> height engine_a \<and> 0 \<le> width engine_a \<and> finite (moves_made engine_a) \<and>
    finite (mines engine_a) \<and>
    \<not> int (card (moves_made engine_a)) + int (card (mines engine_a))
        \<ge> height engine_a * width engine_a"
    by (simp add: engine_a_def)
  note s1 = random_move_spec [of engine_n 0, THEN conjunct1, THEN mp, OF h1]
  note s2 = random_move_spec [of "init_ai (- 1) (- 1)" 0, THEN conjunct2, THEN conjunct1,
    THEN mp, OF h2]
  note s3 = random_move_spec [of engine_a 7, THEN conjunct2, THEN conjunct2, THEN conjunct2,
    THEN conjunct2, THEN mp, OF h3]
  from h3 s3 have "\<not> int (card (moves_made engine_a)) + int (card (mines engine_a))
        \<ge> height engine_a * width engine_a \<and> possible_moves engine_a \<noteq> []"
    by (elim conjE) (rule conjI)
  note s4 = random_move_spec [of engine_a 7, THEN conjunct2, THEN conjunct2, THEN conjunct2,
    THEN conjunct1, THEN mp, OF this]
  from s4 obtain c where "make_random_move 7 engine_a = Inr (Some c)"
    "c \<notin> moves_made engine_a" "c \<notin> mines engine_a" by (elim exE conjE)
  then have "\<exists>c. make_random_move 7 engine_a = Inr (Some c) \<and> c \<notin> moves_made engine_a \<and>
        c \<notin> mines engine_a" by (intro exI conjI)
  with h1 s1 h2 s2 h3 s3 show ?thesis by (elim conjE, intro conjI) assumption+
qed

text \<open>
  C8. In every \<^verbatim>\<open>add_knowledge\<close> call on an engine that a sequence of calls has built
  from a fresh one, the propagation loop returns, and right after it the cells of every
  stored sentence are disjoint from \<open>safes\<close> and from \<open>mines\<close>. The same holds for the
  engine the whole call returns.
\<close>

theorem cells_disjoint_after_propagation:
  "run_ops xs (init_ai h w) = Some k \<Longrightarrow>
   \<exists>k3 k'. propagate (add_new_sentence c cnt (record_move c k)) = Some k3 \<and>
     list_all (\<lambda>s. cells s \<inter> safes k3 = {} \<and> cells s \<inter> mines k3 = {}) (knowledge k3) \<and>
     add_knowledge c cnt k = Some k' \<and>
     list_all (\<lambda>s. cells s \<inter> safes k' = {} \<and> cells s \<inter> mines k' = {}) (knowledge k')"
proof -
  let ?k2 = "add_new_sentence c cnt (record_move c k)"
  assume "run_ops xs (init_ai h w) = Some k"
  then have "kb_inv k" by (rule kb_inv_run_ops)
  then have "kb_inv ?k2"
    by (intro kb_inv_add_new_sentence kb_inv_record_move)
  from propagate_terminates [OF this] obtain k3
    where run: "propagate ?k2 = Some k3" and inv3: "kb_inv k3" by blast
  from run have ak: "add_knowledge c cnt k = Some (subset_elimination k3)"
    by (simp add: add_knowledge_def)
  have dis: "list_all (\<lambda>s. cells s \<inter> safes x = {} \<and> cells s \<inter> mines x = {}) (knowledge x)"
    if "kb_inv x" for x
    using that by (simp add: kb_inv_def list_all_iff)
  from run ak dis [OF inv3] dis [OF kb_inv_subset_elimination [OF inv3]]
  show ?thesis by blast
qed

theorem cells_disjoint_after_propagation_witness:
  "run_ops [Add_knowledge (0, 0) 1] (init_ai 2 3) = Some engine_a \<and>
   (\<exists>k3. propagate (add_new_sentence (0, 1) 2 (record_move (0, 1) engine_a)) = Some k3 \<and>
         list_all (\<lambda>s. cells s \<inter> safes k3 = {} \<and> cells s \<inter> mines k3 = {}) (knowledge k3))"
proof -
  have h: "run_ops [Add_knowledge (0, 0) 1] (init_ai 2 3) = Some engine_a" by code_simp
  from cells_disjoint_after_propagation [OF h, of "(0, 1)" 2] h
  show ?thesis by blast
qed

text \<open>
  C9. Across every sequence of calls (observations, marks and move selections) on an
  engine built from a fresh one, \<open>mines\<close>, \<open>safes\<close> and \<open>moves_made\<close> only grow: each set
  before the calls is contained in the set after them, and its size does not decrease.
\<close>

theorem sets_only_grow:
  "run_ops xs (init_ai h w) = Some k \<Longrightarrow> run_ops ys k = Some k' \<Longrightarrow>
   mines k \<subseteq> mines k' \<and> safes k \<subseteq> safes k' \<and> moves_made k \<subseteq> moves_made k' \<and>
   card (mines k) \<le> card (mines k') \<and> card (safes k) \<le> card (safes k') \<and>
   card (moves_made k) \<le> card (moves_made k')"
proof -
  assume start: "run_ops xs (init_ai h w) = Some k" and run: "run_ops ys k = Some k'"
  from start run have "run_ops (xs @ ys) (init_ai h w) = Some k'"
    by (simp add: run_ops_append)
  then have "kb_inv k'" by (rule kb_inv_run_ops)
  then have fin: "finite (mines k')" "finite (safes k')" "finite (moves_made k')"
    by (simp_all add: kb_inv_def)
  from grows_run_ops [OF run]
  have sub: "mines k \<subseteq> mines k'" "safes k \<subseteq> safes k'" "moves_made k \<subseteq> moves_made k'"
    by (simp_all add: grows_def)
  from sub fin show ?thesis by (simp add: card_mono)
qed

theorem sets_only_grow_witness:
  "run_ops [Add_knowledge (0, 0) 1] (init_ai 2 3) = Some engine_a \<and>
   run_ops [Add_knowledge (0, 1) 2, Make_safe_move [(0, 0), (0, 1)], Make_random_move 3,
            Add_knowledge (0, 2) 1] engine_a = Some engine_b \<and>
   mines engine_a \<subseteq> mines engine_b \<and> card (safes engine_a) \<le> card (safes engine_b)"
proof -
  have h1: "run_ops [Add_knowledge (0, 0) 1] (init_ai 2 3) = Some engine_a" by code_simp
  have h2: "run_ops [Add_knowledge (0, 1) 2, Make_safe_move [(0, 0), (0, 1)], Make_random_move 3,
            Add_knowledge (0, 2) 1] engine_a = Some engine_b" by code_simp
  from sets_only_grow [OF h1 h2] h1 h2 show ?thesis by blast
qed

text \<open>
  C10. After any sequence of calls on a fresh engine, \<open>moves_made\<close> is a subset of
  \<open>safes\<close>: \<^verbatim>\<open>add_knowledge\<close> records the observed cell as safe, also when the cell
  had been marked as a mine before.
\<close>

theorem moves_made_subset_safes:
  "(run_ops xs (init_ai h w) = Some k \<longrightarrow> moves_made k \<subseteq> safes k) \<and>
   (c \<in> mines k \<and> add_knowledge c cnt k = Some k' \<longrightarrow> c \<in> moves_made k' \<and> c \<in> safes k')"
proof -
  have "moves_made k \<subseteq> safes k" if "run_ops xs (init_ai h w) = Some k"
    using played_safe_run_ops [OF that] by (simp add: init_ai_def)
  moreover have "c \<in> moves_made k' \<and> c \<in> safes k'" if "add_knowledge c cnt k = Some k'"
  proof -
    from add_knowledge_stages [OF that] obtain k3
      where run: "propagate (add_new_sentence c cnt (record_move c k)) = Some k3"
        and k': "k' = subset_elimination k3" by blast
    from marks_only_propagate [OF run] show ?thesis
      by (auto simp: marks_only_def k')
  qed
  ultimately show ?thesis by blast
qed

theorem moves_made_subset_safes_witness:
  "run_ops [Mark_mine (0, 0), Add_knowledge (0, 0) 0] (init_ai 1 2) = Some engine_n \<and>
   moves_made engine_n \<subseteq> safes engine_n \<and>
   (0, 0) \<in> mines engine_m \<and> add_knowledge (0, 0) 0 engine_m = Some engine_n \<and>
   (0, 0) \<in> moves_made engine_n \<and> (0, 0) \<in> safes engine_n \<and> (0, 0) \<in> mines engine_n"
proof -
  have h1: "run_ops [Mark_mine (0, 0), Add_knowledge (0, 0) 0] (init_ai 1 2) = Some engine_n"
    by code_simp
  have h2: "(0, 0) \<in> mines engine_m" by (simp add: engine_m_def)
  have h3: "add_knowledge (0, 0) 0 engine_m = Some engine_n" by code_simp
  have h4: "(0, 0) \<in> mines engine_n" by (simp add: engine_n_def)
  from moves_made_subset_safes
         [of "[Mark_mine (0, 0), Add_knowledge (0, 0) 0]" 1 2 engine_n "(0, 0)" 0 engine_n]
    moves_made_subset_safes [of "[]" 1 2 engine_m "(0, 0)" 0 engine_n] h1 h2 h3 h4
  show ?thesis by blast
qed

end
